theory Spec2Isabelle
  imports Complex_Main
begin

section \<open>search\_constants.py\<close>

text \<open>
  The integer tags of \<^verbatim>\<open>search_constants.py\<close> are enumerations: \<^verbatim>\<open>set_strategy\<close> and
  \<^verbatim>\<open>set_cycle_check\<close> raise on every string outside the two maps, so an engine never
  holds another value once it is constructed.
\<close>

datatype strategy = DEPTH_FIRST | BREADTH_FIRST | BEST_FIRST | ASTAR | UCS | CUSTOM

datatype lt_type = LT_SUM_HG | LT_H | LT_G | LT_C

datatype cc_level = CC_NONE | CC_PATH | CC_FULL

datatype error = ValueError | KeyError | IndexError | AttributeError

definition BREADTH_FIRST_STR :: string where
  "BREADTH_FIRST_STR = ''breadth_first''"

definition CC_DEFAULT_STR :: string where
  "CC_DEFAULT_STR = ''default''"

definition SEARCH_STRATEGY_MAP :: "string \<rightharpoonup> strategy" where
  "SEARCH_STRATEGY_MAP = map_of
     [(''depth_first'', DEPTH_FIRST),
      (''breadth_first'', BREADTH_FIRST),
      (''best_first'', BEST_FIRST),
      (''astar'', ASTAR),
      (''ucs'', UCS),
      (''custom'', CUSTOM)]"

definition CYCLE_CHECK_MAP :: "string \<rightharpoonup> cc_level" where
  "CYCLE_CHECK_MAP = map_of
     [(''default'', CC_FULL),
      (''none'', CC_NONE),
      (''path'', CC_PATH),
      (''full'', CC_FULL)]"

section \<open>state.py\<close>

text \<open>
  A \<^verbatim>\<open>StateSpace\<close> object: the action that produced it, its path cost, its parent (None
  for the initial state) and the value its \<^verbatim>\<open>hashable_state()\<close> returns. The class is
  abstract; \<^verbatim>\<open>successors()\<close> belongs to the problem domain and is a parameter
  \<open>successors\<close> of the engine's functions below. The \<^verbatim>\<open>index\<close> field is read by the
  trace output only and is left out; path costs are integers.
\<close>

datatype 'k StateSpace =
  StateSpace (action: string) (gval: int) (parent: "'k StateSpace option") (hashable_state: 'k)

text \<open>The \<^verbatim>\<open>while s:\<close> loop of \<^verbatim>\<open>has_path_cycle\<close>, walking the parent links.\<close>

fun has_path_cycle_loop :: "'k \<Rightarrow> 'k StateSpace option \<Rightarrow> bool" where
  "has_path_cycle_loop hc None = False"
| "has_path_cycle_loop hc (Some (StateSpace a g p k)) =
     (if k = hc then True else has_path_cycle_loop hc p)"

definition has_path_cycle :: "'k StateSpace \<Rightarrow> bool" where
  "has_path_cycle self = has_path_cycle_loop (hashable_state self) (parent self)"

text \<open>The states above a state on its generating path, nearest first.\<close>

fun ancestors_from :: "'k StateSpace option \<Rightarrow> 'k StateSpace list" where
  "ancestors_from None = []"
| "ancestors_from (Some (StateSpace a g p k)) = StateSpace a g p k # ancestors_from p"

definition ancestors :: "'k StateSpace \<Rightarrow> 'k StateSpace list" where
  "ancestors s = ancestors_from (parent s)"

section \<open>search\_node.py\<close>

text \<open>
  A \<^verbatim>\<open>SearchNode\<close>. Every node of one search holds the same \<^verbatim>\<open>fval_function\<close>: the
  one given to \<^verbatim>\<open>init_search\<close>, handed from a node to the nodes of its successors. The
  model keeps it in the engine and passes it to the comparison.
\<close>

record 'k SearchNode =
  state :: "'k StateSpace"
  hval :: int
  node_gval :: int
  index :: nat

definition SearchNode_lt ::
  "lt_type \<Rightarrow> ('k SearchNode \<Rightarrow> int) \<Rightarrow> 'k SearchNode \<Rightarrow> 'k SearchNode \<Rightarrow> bool" where
  "SearchNode_lt lt fval_function self other =
     (if lt = LT_SUM_HG then
        (if node_gval self + hval self = node_gval other + hval other
         then node_gval self > node_gval other
         else node_gval self + hval self < node_gval other + hval other)
      else if lt = LT_G then node_gval self < node_gval other
      else if lt = LT_H then
        (if hval self = hval other then node_gval self > node_gval other
         else hval self < hval other)
      else if lt = LT_C then fval_function self < fval_function other
      else node_gval self < node_gval other)"

subsection \<open>heapq\<close>

text \<open>
  The priority queues are Python lists handled by \<^verbatim>\<open>heapq.heappush\<close> and
  \<^verbatim>\<open>heapq.heappop\<close>, which compare with \<^verbatim>\<open>__lt__\<close>. These are the standard library's
  \<^verbatim>\<open>_siftdown\<close> and \<^verbatim>\<open>_siftup\<close>, over an arbitrary comparison.
\<close>

function siftdown_loop :: "('a \<Rightarrow> 'a \<Rightarrow> bool) \<Rightarrow> 'a list \<Rightarrow> nat \<Rightarrow> nat \<Rightarrow> 'a \<Rightarrow> 'a list" where
  "siftdown_loop lt heap startpos pos newitem =
     (if pos > startpos then
        (if lt newitem (heap ! ((pos - 1) div 2))
         then siftdown_loop lt (heap[pos := heap ! ((pos - 1) div 2)]) startpos
                ((pos - 1) div 2) newitem
         else heap[pos := newitem])
      else heap[pos := newitem])"
  by pat_completeness auto
termination
  by (relation "measure (\<lambda>(lt, heap, startpos, pos, newitem). pos)") auto

declare siftdown_loop.simps [simp del]

definition siftdown :: "('a \<Rightarrow> 'a \<Rightarrow> bool) \<Rightarrow> 'a list \<Rightarrow> nat \<Rightarrow> nat \<Rightarrow> 'a list" where
  "siftdown lt heap startpos pos = siftdown_loop lt heap startpos pos (heap ! pos)"

definition smaller_child :: "('a \<Rightarrow> 'a \<Rightarrow> bool) \<Rightarrow> 'a list \<Rightarrow> nat \<Rightarrow> nat" where
  "smaller_child lt heap childpos =
     (if childpos + 1 < length heap \<and> \<not> lt (heap ! childpos) (heap ! (childpos + 1))
      then childpos + 1 else childpos)"

function siftup_loop :: "('a \<Rightarrow> 'a \<Rightarrow> bool) \<Rightarrow> 'a list \<Rightarrow> nat \<Rightarrow> 'a list \<times> nat" where
  "siftup_loop lt heap pos =
     (if 2 * pos + 1 < length heap then
        siftup_loop lt (heap[pos := heap ! smaller_child lt heap (2 * pos + 1)])
          (smaller_child lt heap (2 * pos + 1))
      else (heap, pos))"
  by pat_completeness auto
termination
  by (relation "measure (\<lambda>(lt, heap, pos). length heap - pos)")
     (auto simp: smaller_child_def)

declare siftup_loop.simps [simp del]

definition siftup :: "('a \<Rightarrow> 'a \<Rightarrow> bool) \<Rightarrow> 'a list \<Rightarrow> nat \<Rightarrow> 'a list" where
  "siftup lt heap pos =
     (let newitem = heap ! pos;
          (heap', pos') = siftup_loop lt heap pos
      in siftdown lt (heap'[pos' := newitem]) pos pos')"

definition heappush :: "('a \<Rightarrow> 'a \<Rightarrow> bool) \<Rightarrow> 'a list \<Rightarrow> 'a \<Rightarrow> 'a list" where
  "heappush lt heap item = siftdown lt (heap @ [item]) 0 (length heap)"

definition heappop :: "('a \<Rightarrow> 'a \<Rightarrow> bool) \<Rightarrow> 'a list \<Rightarrow> error + ('a \<times> 'a list)" where
  "heappop lt heap =
     (if heap = [] then Inl IndexError
      else if butlast heap \<noteq> []
        then Inr (butlast heap ! 0, siftup lt ((butlast heap)[0 := last heap]) 0)
        else Inr (last heap, butlast heap))"


text \<open>
  \<^verbatim>\<open>OpenNodeCollection\<close>: the strategy it was built for and the Python list (or deque)
  \<^verbatim>\<open>self.open\<close>. Its constructor sets the class variable \<^verbatim>\<open>SearchNode.lt_type\<close> for the
  four heap strategies and leaves it alone for the stack and the queue: it returns
  the collection and the new value of the class variable.
\<close>

record 'k OpenNodeCollection =
  search_strategy :: strategy
  open_list :: "'k SearchNode list"

definition OpenNodeCollection_init :: "strategy \<Rightarrow> lt_type \<Rightarrow> 'k OpenNodeCollection \<times> lt_type" where
  "OpenNodeCollection_init strat lt =
     (\<lparr>search_strategy = strat, open_list = []\<rparr>,
      (case strat of
         DEPTH_FIRST \<Rightarrow> lt
       | BREADTH_FIRST \<Rightarrow> lt
       | UCS \<Rightarrow> LT_G
       | BEST_FIRST \<Rightarrow> LT_H
       | ASTAR \<Rightarrow> LT_SUM_HG
       | CUSTOM \<Rightarrow> LT_C))"

definition insert_node ::
  "('k SearchNode \<Rightarrow> 'k SearchNode \<Rightarrow> bool) \<Rightarrow> 'k OpenNodeCollection \<Rightarrow> 'k SearchNode
     \<Rightarrow> 'k OpenNodeCollection" where
  "insert_node lt c node =
     (case search_strategy c of
        DEPTH_FIRST \<Rightarrow> c\<lparr>open_list := open_list c @ [node]\<rparr>
      | BREADTH_FIRST \<Rightarrow> c\<lparr>open_list := open_list c @ [node]\<rparr>
      | _ \<Rightarrow> c\<lparr>open_list := heappush lt (open_list c) node\<rparr>)"

definition extract_node ::
  "('k SearchNode \<Rightarrow> 'k SearchNode \<Rightarrow> bool) \<Rightarrow> 'k OpenNodeCollection
     \<Rightarrow> error + ('k SearchNode \<times> 'k OpenNodeCollection)" where
  "extract_node lt c =
     (case search_strategy c of
        DEPTH_FIRST \<Rightarrow>
          (if open_list c = [] then Inl IndexError
           else Inr (last (open_list c), c\<lparr>open_list := butlast (open_list c)\<rparr>))
      | BREADTH_FIRST \<Rightarrow>
          (if open_list c = [] then Inl IndexError
           else Inr (hd (open_list c), c\<lparr>open_list := tl (open_list c)\<rparr>))
      | _ \<Rightarrow>
          (case heappop lt (open_list c) of
             Inl e \<Rightarrow> Inl e
           | Inr (node, heap) \<Rightarrow> Inr (node, c\<lparr>open_list := heap\<rparr>)))"

definition is_empty :: "'k OpenNodeCollection \<Rightarrow> bool" where
  "is_empty c = (open_list c = [])"

section \<open>search\_statistics.py\<close>

record SearchStatistics =
  states_expanded :: nat
  states_generated :: nat
  states_pruned_cycles :: nat
  states_pruned_cost :: nat
  total_time :: real

section \<open>search\_engine.py\<close>

text \<open>
  The engine object, together with what its methods read and write outside it:
  \<^item> the class variables \<^verbatim>\<open>SearchNode.n\<close>, \<^verbatim>\<open>SearchNode.lt_type\<close> and \<^verbatim>\<open>StateSpace.n\<close>;
  \<^item> the lines printed (\<open>stdout\<close>) and the number of readings of \<^verbatim>\<open>os.times()[0]\<close>
    taken so far (\<open>clock_reads\<close>): the clock is a parameter \<open>clock\<close>, and its
    \<open>i\<close>-th reading is \<open>clock i\<close>;
  \<^item> a log \<open>expanded\<close>, which the source does not keep: the nodes on which
    \<^verbatim>\<open>successors()\<close> was called since \<^verbatim>\<open>init_search\<close>, oldest first.

  \<^verbatim>\<open>goal_fn\<close>, \<^verbatim>\<open>heur_fn\<close> and \<^verbatim>\<open>fval_function\<close> are None until \<^verbatim>\<open>init_search\<close> sets them
  together with \<^verbatim>\<open>open_nodes\<close>, and \<^verbatim>\<open>search\<close> fails on \<^verbatim>\<open>open_nodes\<close> before it reads
  them: only \<^verbatim>\<open>open_nodes\<close> is optional here. Tracing is off (\<^verbatim>\<open>trace = 0\<close>).
  A call of \<^verbatim>\<open>successors()\<close> constructs the states it returns and no others, so it
  adds their number to \<^verbatim>\<open>StateSpace.n\<close>.
\<close>

record 'k SearchEngine =
  strategy :: strategy
  cc :: cc_level
  n_cc_pruned :: nat
  n_cost_pruned :: nat
  open_nodes :: "'k OpenNodeCollection option"
  path_to_gval :: "'k \<rightharpoonup> int"
  goal_fn :: "'k StateSpace \<Rightarrow> bool"
  heur_fn :: "'k StateSpace \<Rightarrow> int"
  fval_function :: "'k SearchNode \<Rightarrow> int"
  search_start_time :: real
  search_stop_time :: "real option"
  SearchNode_n :: nat
  SearchNode_lt_type :: lt_type
  StateSpace_n :: nat
  stdout :: "string list"
  clock_reads :: nat
  expanded :: "'k SearchNode list"

definition zero_hfn :: "'k StateSpace \<Rightarrow> int" where
  "zero_hfn s = 0"

definition default_fval_function :: "'k SearchNode \<Rightarrow> int" where
  "default_fval_function node = hval node"

definition set_strategy :: "'k SearchEngine \<Rightarrow> string \<Rightarrow> error + 'k SearchEngine" where
  "set_strategy self strategy_str =
     (case SEARCH_STRATEGY_MAP strategy_str of
        None \<Rightarrow> Inl ValueError
      | Some s \<Rightarrow> Inr (self\<lparr>strategy := s\<rparr>))"

definition set_cycle_check :: "'k SearchEngine \<Rightarrow> string \<Rightarrow> error + 'k SearchEngine" where
  "set_cycle_check self cc_str =
     (case CYCLE_CHECK_MAP cc_str of
        None \<Rightarrow> Inl ValueError
      | Some level \<Rightarrow>
          if cc_str = CC_DEFAULT_STR \<and> strategy self = DEPTH_FIRST
          then Inr (self\<lparr>cc := CC_PATH\<rparr>)
          else Inr (self\<lparr>cc := level\<rparr>))"

text \<open>
  \<^verbatim>\<open>__init__\<close>: the fields before the two setters run. The strategy and the cycle check
  level start at \<^verbatim>\<open>-1\<close> in the source and are overwritten, or the constructor raises,
  before anything reads them; the class variables have the values of their class
  definitions.
\<close>

definition SearchEngine_fields :: "'k SearchEngine" where
  "SearchEngine_fields =
     \<lparr>strategy = BREADTH_FIRST, cc = CC_NONE, n_cc_pruned = 0, n_cost_pruned = 0,
      open_nodes = None, path_to_gval = Map.empty,
      goal_fn = (\<lambda>s. False), heur_fn = zero_hfn, fval_function = default_fval_function,
      search_start_time = - 1, search_stop_time = Some (- 1),
      SearchNode_n = 0, SearchNode_lt_type = LT_SUM_HG, StateSpace_n = 0,
      stdout = [], clock_reads = 0, expanded = []\<rparr>"

definition SearchEngine_init :: "string \<Rightarrow> string \<Rightarrow> error + 'k SearchEngine" where
  "SearchEngine_init strategy_str cc_str =
     (case set_strategy SearchEngine_fields strategy_str of
        Inl e \<Rightarrow> Inl e
      | Inr self \<Rightarrow> set_cycle_check self cc_str)"

definition init_statistics :: "'k SearchEngine \<Rightarrow> 'k SearchEngine" where
  "init_statistics self = self\<lparr>SearchNode_n := 0, StateSpace_n := 1\<rparr>"

text \<open>\<^verbatim>\<open>SearchNode(state, hval, fval_function)\<close>: the node and the class counter moved on.\<close>

definition new_SearchNode ::
  "'k SearchEngine \<Rightarrow> 'k StateSpace \<Rightarrow> int \<Rightarrow> 'k SearchNode \<times> 'k SearchEngine" where
  "new_SearchNode self s h =
     (\<lparr>state = s, hval = h, node_gval = gval s, index = SearchNode_n self\<rparr>,
      self\<lparr>SearchNode_n := SearchNode_n self + 1\<rparr>)"

text \<open>The comparison the heap operations of this engine use at the moment.\<close>

definition node_lt :: "'k SearchEngine \<Rightarrow> 'k SearchNode \<Rightarrow> 'k SearchNode \<Rightarrow> bool" where
  "node_lt self = SearchNode_lt (SearchNode_lt_type self) (fval_function self)"

definition init_search ::
  "'k SearchEngine \<Rightarrow> 'k StateSpace \<Rightarrow> ('k StateSpace \<Rightarrow> bool) \<Rightarrow> ('k StateSpace \<Rightarrow> int)
     \<Rightarrow> ('k SearchNode \<Rightarrow> int) \<Rightarrow> 'k SearchEngine" where
  "init_search self init_state goal heur fval_fn =
     (let self1 = (init_statistics self)\<lparr>expanded := []\<rparr>;
          (collection, lt) = OpenNodeCollection_init (strategy self1) (SearchNode_lt_type self1);
          self2 = self1\<lparr>open_nodes := Some collection, SearchNode_lt_type := lt\<rparr>;
          (node, self3) = new_SearchNode self2 init_state (heur init_state);
          self4 = (if cc self3 = CC_FULL
                   then self3\<lparr>path_to_gval :=
                          (path_to_gval self3)(hashable_state init_state \<mapsto> gval init_state)\<rparr>
                   else self3);
          self5 = self4\<lparr>open_nodes :=
                    Some (insert_node (SearchNode_lt lt fval_fn) collection node)\<rparr>
      in self5\<lparr>fval_function := fval_fn, goal_fn := goal, heur_fn := heur\<rparr>)"

definition is_prunable :: "'k SearchEngine \<Rightarrow> 'k StateSpace \<Rightarrow> bool" where
  "is_prunable self successor =
     (let successor_hash = hashable_state successor;
          contains_full_cycle =
            (cc self = CC_FULL \<and>
             (case path_to_gval self successor_hash of
                None \<Rightarrow> False
              | Some recorded \<Rightarrow> gval successor > recorded));
          contains_path_cycle = (cc self = CC_PATH \<and> has_path_cycle successor)
      in contains_full_cycle \<or> contains_path_cycle)"

text \<open>The cost bound test of the successor loop.\<close>

definition over_costbound :: "(int \<times> int \<times> int) option \<Rightarrow> int \<Rightarrow> int \<Rightarrow> bool" where
  "over_costbound costbound g h =
     (case costbound of
        None \<Rightarrow> False
      | Some (b0, b1, b2) \<Rightarrow> g > b0 \<or> h > b1 \<or> g + h > b2)"

text \<open>One round of \<^verbatim>\<open>for succ in successors\<close>.\<close>

definition visit_successor ::
  "('k StateSpace \<Rightarrow> int) \<Rightarrow> (int \<times> int \<times> int) option \<Rightarrow> 'k SearchEngine \<Rightarrow> 'k StateSpace
     \<Rightarrow> error + 'k SearchEngine" where
  "visit_successor heur costbound self succ =
     (let hash_state = hashable_state succ in
      if is_prunable self succ
      then Inr (self\<lparr>n_cc_pruned := n_cc_pruned self + 1\<rparr>)
      else
        let succ_hval = heur succ in
        if over_costbound costbound (gval succ) succ_hval
        then Inr (self\<lparr>n_cost_pruned := n_cost_pruned self + 1\<rparr>)
        else
          (case open_nodes self of
             None \<Rightarrow> Inl AttributeError
           | Some collection \<Rightarrow>
               let (node, self1) = new_SearchNode self succ succ_hval;
                   self2 = self1\<lparr>open_nodes :=
                             Some (insert_node (node_lt self1) collection node)\<rparr>
               in if cc self2 = CC_FULL
                  then Inr (self2\<lparr>path_to_gval :=
                              (path_to_gval self2)(hash_state \<mapsto> gval succ)\<rparr>)
                  else Inr self2))"

fun visit_successors ::
  "('k StateSpace \<Rightarrow> int) \<Rightarrow> (int \<times> int \<times> int) option \<Rightarrow> 'k SearchEngine
     \<Rightarrow> 'k StateSpace list \<Rightarrow> error + 'k SearchEngine" where
  "visit_successors heur costbound self [] = Inr self"
| "visit_successors heur costbound self (succ # rest) =
     (case visit_successor heur costbound self succ of
        Inl e \<Rightarrow> Inl e
      | Inr self' \<Rightarrow> visit_successors heur costbound self' rest)"

text \<open>
  What one round of the \<^verbatim>\<open>while\<close> loop of \<^verbatim>\<open>_searchOpen\<close> does: it goes on with the
  next round, returns (a node, or None for the source's False), or raises.
\<close>

datatype 'k round = Continue "'k SearchEngine"
  | Return "'k SearchNode option" "'k SearchEngine"
  | Raise error

text \<open>From \<^verbatim>\<open>successors = node.state.successors()\<close> to the end of the round.\<close>

definition expand ::
  "('k StateSpace \<Rightarrow> 'k StateSpace list) \<Rightarrow> ('k StateSpace \<Rightarrow> int) \<Rightarrow> (int \<times> int \<times> int) option
     \<Rightarrow> 'k SearchEngine \<Rightarrow> 'k SearchNode \<Rightarrow> 'k round" where
  "expand successors heur costbound self node =
     (let succs = successors (state node);
          self1 = self\<lparr>StateSpace_n := StateSpace_n self + length succs,
                       expanded := expanded self @ [node]\<rparr>
      in case visit_successors heur costbound self1 succs of
           Inl e \<Rightarrow> Raise e
         | Inr self2 \<Rightarrow> Continue self2)"

text \<open>The check before the expansion: a node the ledger has a cheaper path for is skipped.\<close>

definition check_stale ::
  "('k StateSpace \<Rightarrow> 'k StateSpace list) \<Rightarrow> ('k StateSpace \<Rightarrow> int) \<Rightarrow> (int \<times> int \<times> int) option
     \<Rightarrow> 'k SearchEngine \<Rightarrow> 'k SearchNode \<Rightarrow> 'k round" where
  "check_stale successors heur costbound self node =
     (if cc self = CC_FULL then
        (case path_to_gval self (hashable_state (state node)) of
           None \<Rightarrow> Raise KeyError
         | Some recorded \<Rightarrow>
             if recorded < node_gval node then Continue self
             else expand successors heur costbound self node)
      else expand successors heur costbound self node)"

text \<open>
  The deadline test. Python's \<^verbatim>\<open>if self.search_stop_time:\<close> is false for None and for
  \<^verbatim>\<open>0\<close>; the clock is read only when it is true.
\<close>

definition stop_time_set :: "real option \<Rightarrow> bool" where
  "stop_time_set t = (case t of None \<Rightarrow> False | Some v \<Rightarrow> v \<noteq> 0)"

definition timeout_message :: string where
  "timeout_message = ''Search has exceeded the time bound provided.''"

definition searchOpen_round ::
  "(nat \<Rightarrow> real) \<Rightarrow> ('k StateSpace \<Rightarrow> 'k StateSpace list) \<Rightarrow> ('k StateSpace \<Rightarrow> bool)
     \<Rightarrow> ('k StateSpace \<Rightarrow> int) \<Rightarrow> (int \<times> int \<times> int) option \<Rightarrow> 'k SearchEngine \<Rightarrow> 'k round" where
  "searchOpen_round clock successors goal heur costbound self =
     (case open_nodes self of
        None \<Rightarrow> Raise AttributeError
      | Some collection \<Rightarrow>
          if is_empty collection then Return None self
          else
            (case extract_node (node_lt self) collection of
               Inl e \<Rightarrow> Raise e
             | Inr (node, collection') \<Rightarrow>
                 let self1 = self\<lparr>open_nodes := Some collection'\<rparr> in
                 if goal (state node) then Return (Some node) self1
                 else if stop_time_set (search_stop_time self1) then
                   (let now = clock (clock_reads self1);
                        self2 = self1\<lparr>clock_reads := clock_reads self1 + 1\<rparr>
                    in if now > the (search_stop_time self2)
                       then Return None (self2\<lparr>stdout := stdout self2 @ [timeout_message]\<rparr>)
                       else check_stale successors heur costbound self2 node)
                 else check_stale successors heur costbound self1 node))"

text \<open>
  The result of a call: it returned a value and left the engine in a state, it raised,
  or the rounds allowed (\<open>fuel\<close>) were used up before it returned, with the engine as
  it was then.
\<close>

datatype ('r, 's) outcome = Returned 'r 's | Raised error | Unfinished 's

fun searchOpen ::
  "(nat \<Rightarrow> real) \<Rightarrow> ('k StateSpace \<Rightarrow> 'k StateSpace list) \<Rightarrow> nat \<Rightarrow> ('k StateSpace \<Rightarrow> bool)
     \<Rightarrow> ('k StateSpace \<Rightarrow> int) \<Rightarrow> (int \<times> int \<times> int) option \<Rightarrow> 'k SearchEngine
     \<Rightarrow> ('k SearchNode option, 'k SearchEngine) outcome" where
  "searchOpen clock successors 0 goal heur costbound self = Unfinished self"
| "searchOpen clock successors (Suc fuel) goal heur costbound self =
     (case searchOpen_round clock successors goal heur costbound self of
        Raise e \<Rightarrow> Raised e
      | Return r self' \<Rightarrow> Returned r self'
      | Continue self' \<Rightarrow> searchOpen clock successors fuel goal heur costbound self')"

text \<open>\<^verbatim>\<open>search\<close>, up to the call of \<^verbatim>\<open>_searchOpen\<close>: \<^verbatim>\<open>if timebound:\<close> is false for None and 0.\<close>

definition search_begin :: "(nat \<Rightarrow> real) \<Rightarrow> 'k SearchEngine \<Rightarrow> real option \<Rightarrow> 'k SearchEngine" where
  "search_begin clock self timebound =
     (let self1 = self\<lparr>search_start_time := clock (clock_reads self),
                       search_stop_time := None,
                       clock_reads := clock_reads self + 1\<rparr>
      in case timebound of
           None \<Rightarrow> self1
         | Some t \<Rightarrow>
             if t \<noteq> 0
             then self1\<lparr>search_stop_time := Some (search_start_time self1 + t)\<rparr>
             else self1)"

text \<open>\<^verbatim>\<open>search\<close>, after \<^verbatim>\<open>_searchOpen\<close> has returned \<open>goal_node\<close>.\<close>

definition search_finish ::
  "(nat \<Rightarrow> real) \<Rightarrow> 'k SearchNode option \<Rightarrow> 'k SearchEngine
     \<Rightarrow> ('k StateSpace option \<times> SearchStatistics) \<times> 'k SearchEngine" where
  "search_finish clock goal_node self =
     (let total_search_time = clock (clock_reads self) - search_start_time self;
          self1 = self\<lparr>clock_reads := clock_reads self + 1\<rparr>;
          stats = \<lparr>states_expanded = SearchNode_n self1,
                   states_generated = StateSpace_n self1,
                   states_pruned_cycles = n_cc_pruned self1,
                   states_pruned_cost = n_cost_pruned self1,
                   total_time = total_search_time\<rparr>
      in (case goal_node of
            Some node \<Rightarrow> ((Some (state node), stats), self1)
          | None \<Rightarrow> ((None, stats), self1)))"

definition search ::
  "(nat \<Rightarrow> real) \<Rightarrow> ('k StateSpace \<Rightarrow> 'k StateSpace list) \<Rightarrow> nat \<Rightarrow> 'k SearchEngine
     \<Rightarrow> real option \<Rightarrow> (int \<times> int \<times> int) option
     \<Rightarrow> ('k StateSpace option \<times> SearchStatistics, 'k SearchEngine) outcome" where
  "search clock successors fuel self timebound costbound =
     (let self1 = search_begin clock self timebound in
      case searchOpen clock successors fuel (goal_fn self1) (heur_fn self1) costbound self1 of
        Raised e \<Rightarrow> Raised e
      | Unfinished self2 \<Rightarrow> Unfinished self2
      | Returned goal_node self2 \<Rightarrow>
          (case search_finish clock goal_node self2 of (result, self3) \<Rightarrow> Returned result self3))"

section \<open>What the engine leaves behind\<close>

text \<open>The nodes in \<^verbatim>\<open>self.open_nodes\<close>; none before \<^verbatim>\<open>init_search\<close>.\<close>

definition frontier :: "'k SearchEngine \<Rightarrow> 'k SearchNode list" where
  "frontier self = (case open_nodes self of None \<Rightarrow> [] | Some c \<Rightarrow> open_list c)"

fun returned_value :: "('r, 's) outcome \<Rightarrow> 'r option" where
  "returned_value (Returned r s) = Some r"
| "returned_value (Raised e) = None"
| "returned_value (Unfinished s) = None"

text \<open>The engine after the call, or after the rounds that were run.\<close>

fun engine_after :: "('r, 's) outcome \<Rightarrow> 's option" where
  "engine_after (Returned r s) = Some s"
| "engine_after (Raised e) = None"
| "engine_after (Unfinished s) = Some s"

text \<open>The engine one round of the loop leaves.\<close>

fun round_engine :: "'k round \<Rightarrow> 'k SearchEngine option" where
  "round_engine (Continue s) = Some s"
| "round_engine (Return r s) = Some s"
| "round_engine (Raise e) = None"

text \<open>The identity and the cost of each node of a list, in its order.\<close>

definition identity_costs :: "'k SearchNode list \<Rightarrow> ('k \<times> int) list" where
  "identity_costs nodes = map (\<lambda>node. (hashable_state (state node), node_gval node)) nodes"

text \<open>
  No identity comes back later in the list at a strictly higher cost: whenever two
  positions hold the same identity, the later cost is at most the earlier one.
\<close>

definition costs_never_rise :: "'k SearchNode list \<Rightarrow> bool" where
  "costs_never_rise nodes =
     (\<forall>i j. i < j \<longrightarrow> j < length nodes \<longrightarrow>
        hashable_state (state (nodes ! i)) = hashable_state (state (nodes ! j)) \<longrightarrow>
        node_gval (nodes ! j) \<le> node_gval (nodes ! i))"

text \<open>Every cost recorded in \<open>m\<close> is still recorded in \<open>m'\<close>, equal or lower.\<close>

definition ledger_le :: "('k \<rightharpoonup> int) \<Rightarrow> ('k \<rightharpoonup> int) \<Rightarrow> bool" where
  "ledger_le m m' = (\<forall>k c. m k = Some c \<longrightarrow> (\<exists>c'. m' k = Some c' \<and> c' \<le> c))"

text \<open>The ledger has an entry for the node's identity, at a cost no higher than the node's.\<close>

definition ledger_covers :: "'k SearchEngine \<Rightarrow> 'k SearchNode \<Rightarrow> bool" where
  "ledger_covers self node =
     (case path_to_gval self (hashable_state (state node)) of
        None \<Rightarrow> False
      | Some recorded \<Rightarrow> recorded \<le> node_gval node)"

definition full_cc_invariant :: "'k SearchEngine \<Rightarrow> bool" where
  "full_cc_invariant self =
     (cc self = CC_FULL \<and> open_nodes self \<noteq> None \<and>
      list_all (ledger_covers self) (frontier self) \<and>
      list_all (ledger_covers self) (expanded self) \<and>
      costs_never_rise (expanded self))"

section \<open>Example problems\<close>

text \<open>
  A diamond: from the start state (identity 0) two unit-cost moves lead to the
  identities 1 and 2, and from each of them one unit-cost move leads to identity 3,
  which has no successors. Identity 3 is reached twice, at cost 2 both times.
\<close>

definition start_state :: "nat StateSpace" where
  "start_state = StateSpace ''START'' 0 None 0"

definition diamond :: "nat StateSpace \<Rightarrow> nat StateSpace list" where
  "diamond s =
     (if hashable_state s = 0
      then [StateSpace ''left'' (gval s + 1) (Some s) 1,
            StateSpace ''right'' (gval s + 1) (Some s) 2]
      else if hashable_state s = 1 then [StateSpace ''right'' (gval s + 1) (Some s) 3]
      else if hashable_state s = 2 then [StateSpace ''left'' (gval s + 1) (Some s) 3]
      else [])"

text \<open>The state that reaches identity 3 by the second route, through identity 2.\<close>

definition second_arrival :: "nat StateSpace" where
  "second_arrival =
     StateSpace ''left'' 2 (Some (StateSpace ''right'' 1 (Some start_state) 2)) 3"

definition no_goal :: "nat StateSpace \<Rightarrow> bool" where
  "no_goal s = False"

definition any_goal :: "nat StateSpace \<Rightarrow> bool" where
  "any_goal s = True"

text \<open>A state space with the start state alone.\<close>

definition dead_end :: "nat StateSpace \<Rightarrow> nat StateSpace list" where
  "dead_end s = []"

text \<open>An engine built for a strategy and a cycle check level, and made ready to search
  from the start state without a heuristic.\<close>

definition ready_engine ::
  "string \<Rightarrow> string \<Rightarrow> (nat StateSpace \<Rightarrow> bool) \<Rightarrow> nat SearchEngine" where
  "ready_engine strategy_str cc_str goal =
     (case SearchEngine_init strategy_str cc_str of
        Inl e \<Rightarrow> SearchEngine_fields
      | Inr self \<Rightarrow> init_search self start_state goal zero_hfn default_fval_function)"

text \<open>Clocks: one that stands still, and two that read 0, then 2 or 1, then 3.\<close>

definition still_clock :: "nat \<Rightarrow> real" where
  "still_clock i = 0"

definition fast_clock :: "nat \<Rightarrow> real" where
  "fast_clock i = (if i = 0 then 0 else if i = 1 then 2 else 3)"

definition slow_clock :: "nat \<Rightarrow> real" where
  "slow_clock i = (if i = 0 then 0 else if i = 1 then 1 else 3)"

text \<open>
  The engine after two rounds of breadth-first search with full cycle checking on the
  diamond: the start state and identity 1 have been expanded.
\<close>

definition after_two_rounds :: "nat SearchEngine" where
  "after_two_rounds =
     (case search still_clock diamond 2 (ready_engine ''breadth_first'' ''full'' no_goal)
             None None of
        Unfinished s \<Rightarrow> s
      | _ \<Rightarrow> SearchEngine_fields)"

text \<open>
  Two engines on the state space with the start state alone, both searching with a
  time bound of 1: one about to run its first round under the fast clock, whose next
  reading is past the deadline, and one after the first round of a search under the
  slow clock, which expanded the start state and left the frontier empty.
\<close>

definition timed_engine :: "nat SearchEngine" where
  "timed_engine =
     search_begin fast_clock (ready_engine ''breadth_first'' ''full'' no_goal) (Some 1)"

definition exhausted_engine :: "nat SearchEngine" where
  "exhausted_engine =
     (case search slow_clock dead_end 1 (ready_engine ''breadth_first'' ''full'' no_goal)
             (Some 1) None of
        Unfinished s \<Rightarrow> s
      | _ \<Rightarrow> SearchEngine_fields)"

definition start_node :: "nat SearchNode" where
  "start_node = \<lparr>state = start_state, hval = 0, node_gval = 0, index = 0\<rparr>"

section \<open>Evaluating the examples\<close>

lemmas run_defs =
  ready_engine_def SearchEngine_init_def set_strategy_def set_cycle_check_def
  SEARCH_STRATEGY_MAP_def CYCLE_CHECK_MAP_def CC_DEFAULT_STR_def SearchEngine_fields_def
  init_search_def init_statistics_def OpenNodeCollection_init_def new_SearchNode_def
  insert_node_def start_state_def second_arrival_def zero_hfn_def
  search_def search_begin_def search_finish_def
  searchOpen_round_def is_empty_def extract_node_def node_lt_def stop_time_set_def
  check_stale_def expand_def visit_successor_def is_prunable_def over_costbound_def
  diamond_def dead_end_def no_goal_def any_goal_def still_clock_def fast_clock_def
  slow_clock_def frontier_def identity_costs_def after_two_rounds_def
  timed_engine_def exhausted_engine_def start_node_def

section \<open>The prunability test\<close>

lemma has_path_cycle_loop_iff:
  "has_path_cycle_loop hc p \<longleftrightarrow> hc \<in> hashable_state ` set (ancestors_from p)"
  by (induction p rule: ancestors_from.induct) auto

lemma has_path_cycle_iff:
  "has_path_cycle s \<longleftrightarrow> hashable_state s \<in> hashable_state ` set (ancestors s)"
  by (simp add: has_path_cycle_def ancestors_def has_path_cycle_loop_iff)

lemma is_prunable_full:
  "is_prunable self succ \<longleftrightarrow>
     (cc self = CC_FULL \<and>
        (\<exists>c. path_to_gval self (hashable_state succ) = Some c \<and> c < gval succ)) \<or>
     (cc self = CC_PATH \<and> has_path_cycle succ)"
  by (auto simp: is_prunable_def Let_def split: option.splits)

text \<open>
  Claim C1, as stated, fails: with full cycle checking, a successor whose identity is
  in the ledger at a cost equal to its own is not pruned. After two rounds of
  breadth-first search on the diamond the ledger holds identity 3 at cost 2, and the
  state that reaches identity 3 by the second route, also at cost 2, is not prunable.
\<close>

theorem prunable_equal_cost_counterexample:
  "(case search still_clock diamond 2 (ready_engine ''breadth_first'' ''full'' no_goal)
           None None of
      Unfinished self \<Rightarrow>
        cc self = CC_FULL \<and>
        path_to_gval self (hashable_state second_arrival) = Some 2 \<and>
        gval second_arrival = 2 \<and>
        \<not> is_prunable self second_arrival
    | _ \<Rightarrow> False)"
  by (simp add: run_defs eval_nat_numeral)

text \<open>
  Claim C1, amended: the prunability test rejects a successor if and only if either
  full cycle checking is active and the ledger has an entry for its identity with a
  recorded cost strictly lower than the successor's path cost, or path cycle checking
  is active and its identity equals the identity of some ancestor on its own
  generating path. The successor loop counts a successor as cycle-pruned, and does
  nothing else with it, exactly when the test rejects it.
\<close>

theorem is_prunable_iff:
  "(is_prunable self succ \<longleftrightarrow>
      (cc self = CC_FULL \<and>
         (\<exists>c. path_to_gval self (hashable_state succ) = Some c \<and> c < gval succ)) \<or>
      (cc self = CC_PATH \<and>
         hashable_state succ \<in> hashable_state ` set (ancestors succ))) \<and>
   (visit_successor heur costbound self succ = Inr (self\<lparr>n_cc_pruned := n_cc_pruned self + 1\<rparr>)
      \<longleftrightarrow> is_prunable self succ)"
proof -
  have a: "visit_successor heur costbound self succ
             = Inr (self\<lparr>n_cc_pruned := n_cc_pruned self + 1\<rparr>)" if "is_prunable self succ"
    using that by (simp add: visit_successor_def)
  have b: "n_cc_pruned self' = n_cc_pruned self"
    if "\<not> is_prunable self succ" "visit_successor heur costbound self succ = Inr self'" for self'
    using that
    by (auto simp: visit_successor_def Let_def new_SearchNode_def
             split: if_splits option.splits)
  have c: "is_prunable self succ"
    if h: "visit_successor heur costbound self succ
             = Inr (self\<lparr>n_cc_pruned := n_cc_pruned self + 1\<rparr>)"
  proof (rule ccontr)
    assume "\<not> is_prunable self succ"
    from b [OF this h] show False by simp
  qed
  show ?thesis
    using a c by (auto simp: is_prunable_full has_path_cycle_iff)
qed

section \<open>Cost bounds\<close>



section \<open>Node ordering\<close>

text \<open>
  Claim C7: under the greedy best-first ordering (the comparison mode the frontier of
  the best-first strategy selects) a node precedes another exactly when its h is
  strictly lower, or the h are equal and its g is larger; under the A* ordering (the
  mode the frontier of the A* strategy selects) exactly when its g+h is strictly
  lower, or the g+h are equal and its g is larger.
\<close>

theorem SearchNode_lt_orderings:
  "SearchNode_lt LT_H fval a b =
     (hval a < hval b \<or> (hval a = hval b \<and> node_gval a > node_gval b)) \<and>
   SearchNode_lt LT_SUM_HG fval a b =
     (node_gval a + hval a < node_gval b + hval b \<or>
      (node_gval a + hval a = node_gval b + hval b \<and> node_gval a > node_gval b)) \<and>
   snd (OpenNodeCollection_init BEST_FIRST lt :: 'k OpenNodeCollection \<times> lt_type) = LT_H \<and>
   snd (OpenNodeCollection_init ASTAR lt :: 'k OpenNodeCollection \<times> lt_type) = LT_SUM_HG"
  by (auto simp: SearchNode_lt_def OpenNodeCollection_init_def)

section \<open>The default cycle check level\<close>

text \<open>
  Claim C8: the cycle check level \<^verbatim>\<open>'default'\<close> resolves to path checking when the
  engine's strategy is depth-first and to full checking for every other strategy,
  both when it is set on an engine and when an engine is constructed with it.
\<close>

theorem default_cycle_check:
  "set_cycle_check self ''default'' =
     Inr (self\<lparr>cc := (if strategy self = DEPTH_FIRST then CC_PATH else CC_FULL)\<rparr>) \<and>
   (SearchEngine_init strategy_str ''default'' :: error + 'k SearchEngine) =
     (case SEARCH_STRATEGY_MAP strategy_str of
        None \<Rightarrow> Inl ValueError
      | Some s \<Rightarrow>
          Inr (SearchEngine_fields
                 \<lparr>strategy := s, cc := (if s = DEPTH_FIRST then CC_PATH else CC_FULL)\<rparr>))"
  by (simp add: SearchEngine_init_def set_strategy_def set_cycle_check_def
        CYCLE_CHECK_MAP_def CC_DEFAULT_STR_def split: option.splits)

section \<open>The heap operations keep the elements\<close>

lemma set_siftdown_loop:
  "pos < length heap \<Longrightarrow>
     set (siftdown_loop lt heap startpos pos newitem) \<subseteq> insert newitem (set heap)"
proof (induction lt heap startpos pos newitem rule: siftdown_loop.induct)
  case (1 lt heap startpos pos newitem)
  let ?parent = "(pos - 1) div 2"
  show ?case
  proof (cases "pos > startpos \<and> lt newitem (heap ! ?parent)")
    case True
    have p: "?parent < length heap"
      using "1.prems" by simp
    then have "heap ! ?parent \<in> set heap"
      by simp
    then have s: "set (heap[pos := heap ! ?parent]) \<subseteq> set heap"
      using set_update_subset_insert [of heap pos "heap ! ?parent"] by auto
    have "set (siftdown_loop lt (heap[pos := heap ! ?parent]) startpos ?parent newitem)
            \<subseteq> insert newitem (set (heap[pos := heap ! ?parent]))"
      using "1.IH" True p by simp
    with s True show ?thesis
      by (subst siftdown_loop.simps) auto
  next
    case False
    then show ?thesis
      using set_update_subset_insert [of heap pos newitem]
      by (subst siftdown_loop.simps) auto
  qed
qed

lemma siftup_loop_keeps:
  "siftup_loop lt heap pos = (heap', pos') \<Longrightarrow> pos < length heap \<Longrightarrow>
     set heap' \<subseteq> set heap \<and> pos' < length heap'"
proof (induction lt heap pos arbitrary: heap' pos' rule: siftup_loop.induct)
  case (1 lt heap pos)
  let ?child = "smaller_child lt heap (2 * pos + 1)"
  show ?case
  proof (cases "2 * pos + 1 < length heap")
    case True
    have c: "?child < length heap"
      using True by (simp add: smaller_child_def)
    then have "heap ! ?child \<in> set heap"
      by simp
    then have s: "set (heap[pos := heap ! ?child]) \<subseteq> set heap"
      using set_update_subset_insert [of heap pos "heap ! ?child"] by auto
    have e: "siftup_loop lt (heap[pos := heap ! ?child]) ?child = (heap', pos')"
      using "1.prems"(1) True by (subst (asm) siftup_loop.simps) simp
    have "set heap' \<subseteq> set (heap[pos := heap ! ?child]) \<and> pos' < length heap'"
      using "1.IH" [OF True e] c by simp
    with s show ?thesis
      by auto
  next
    case False
    then show ?thesis
      using "1.prems" by (subst (asm) siftup_loop.simps) auto
  qed
qed

lemma set_siftdown:
  "pos < length heap \<Longrightarrow> set (siftdown lt heap startpos pos) \<subseteq> set heap"
  using set_siftdown_loop [of pos heap lt startpos "heap ! pos"]
  by (auto simp: siftdown_def)

lemma set_siftup:
  assumes "pos < length heap"
  shows "set (siftup lt heap pos) \<subseteq> set heap"
proof -
  obtain heap' pos' where l: "siftup_loop lt heap pos = (heap', pos')"
    by (cases "siftup_loop lt heap pos")
  from siftup_loop_keeps [OF l assms]
  have k: "set heap' \<subseteq> set heap" "pos' < length heap'"
    by auto
  have "heap ! pos \<in> set heap"
    using assms by simp
  with k have "set (heap'[pos' := heap ! pos]) \<subseteq> set heap"
    using set_update_subset_insert [of heap' pos' "heap ! pos"] by auto
  moreover have "set (siftdown lt (heap'[pos' := heap ! pos]) pos pos')
                   \<subseteq> set (heap'[pos' := heap ! pos])"
    using k by (intro set_siftdown) simp
  ultimately show ?thesis
    using l by (simp add: siftup_def)
qed

lemma set_heappush: "set (heappush lt heap item) \<subseteq> insert item (set heap)"
  using set_siftdown [of "length heap" "heap @ [item]" lt 0]
  by (auto simp: heappush_def)

lemma heappop_keeps:
  assumes "heappop lt heap = Inr (item, heap')"
  shows "item \<in> set heap \<and> set heap' \<subseteq> set heap"
proof (cases "butlast heap = []")
  case True
  with assms show ?thesis
    by (auto simp: heappop_def split: if_splits)
next
  case False
  then have ne: "heap \<noteq> []"
    by auto
  have b: "set (butlast heap) \<subseteq> set heap"
    by (auto dest: in_set_butlastD)
  have i: "item = butlast heap ! 0"
    and h: "heap' = siftup lt ((butlast heap)[0 := last heap]) 0"
    using assms False ne by (auto simp: heappop_def)
  have "0 < length (butlast heap)"
    using False by blast
  then have "butlast heap ! 0 \<in> set (butlast heap)"
    by (rule nth_mem)
  with b i have 1: "item \<in> set heap"
    by auto
  have "set ((butlast heap)[0 := last heap]) \<subseteq> insert (last heap) (set (butlast heap))"
    by (rule set_update_subset_insert)
  with b ne have "set ((butlast heap)[0 := last heap]) \<subseteq> set heap"
    by auto
  moreover have "set (siftup lt ((butlast heap)[0 := last heap]) 0)
                   \<subseteq> set ((butlast heap)[0 := last heap])"
    using \<open>0 < length (butlast heap)\<close> by (intro set_siftup) simp
  ultimately show ?thesis
    using 1 h by auto
qed

lemma heappop_nonempty: "heap \<noteq> [] \<Longrightarrow> \<exists>r. heappop lt heap = Inr r"
  by (simp add: heappop_def)

lemma set_insert_node:
  "set (open_list (insert_node lt c node)) \<subseteq> insert node (set (open_list c))"
  using set_heappush [of lt "open_list c" node]
  by (cases "search_strategy c") (auto simp: insert_node_def)

lemma extract_node_keeps:
  assumes "extract_node lt c = Inr (node, c')"
  shows "node \<in> set (open_list c) \<and> set (open_list c') \<subseteq> set (open_list c)"
proof -
  have b: "set (butlast (open_list c)) \<subseteq> set (open_list c)"
    by (auto dest: in_set_butlastD)
  have t: "set (tl (open_list c)) \<subseteq> set (open_list c)"
    by (cases "open_list c") auto
  consider (stack) "search_strategy c = DEPTH_FIRST"
    | (queue) "search_strategy c = BREADTH_FIRST"
    | (heap) "search_strategy c \<noteq> DEPTH_FIRST" "search_strategy c \<noteq> BREADTH_FIRST"
    by blast
  then show ?thesis
  proof cases
    case stack
    with assms have "open_list c \<noteq> []" "node = last (open_list c)"
      "open_list c' = butlast (open_list c)"
      by (auto simp: extract_node_def split: if_splits)
    with b show ?thesis
      by simp
  next
    case queue
    with assms have "open_list c \<noteq> []" "node = hd (open_list c)"
      "open_list c' = tl (open_list c)"
      by (auto simp: extract_node_def split: if_splits)
    with t show ?thesis
      by simp
  next
    case heap
    then obtain h where "heappop lt (open_list c) = Inr (node, h)" "open_list c' = h"
      using assms
      by (cases "search_strategy c")
         (auto simp: extract_node_def split: sum.splits)
    with heappop_keeps [of lt "open_list c" node h] show ?thesis
      by simp
  qed
qed

lemma extract_node_nonempty:
  "\<not> is_empty c \<Longrightarrow> \<exists>r. extract_node lt c = Inr r"
  using heappop_nonempty [of "open_list c" lt]
  by (cases "search_strategy c") (auto simp: extract_node_def is_empty_def)

section \<open>One successor\<close>

lemma visit_successor_Inr:
  assumes "visit_successor heur costbound self succ = Inr self'"
  shows "self' = self\<lparr>n_cc_pruned := n_cc_pruned self + 1\<rparr> \<or>
         self' = self\<lparr>n_cost_pruned := n_cost_pruned self + 1\<rparr> \<or>
         (\<exists>c. open_nodes self = Some c \<and> \<not> is_prunable self succ \<and>
            self' = self
              \<lparr>SearchNode_n := SearchNode_n self + 1,
               open_nodes := Some (insert_node
                  (node_lt (self\<lparr>SearchNode_n := SearchNode_n self + 1\<rparr>)) c
                  \<lparr>state = succ, hval = heur succ, node_gval = gval succ,
                   index = SearchNode_n self\<rparr>),
               path_to_gval := (if cc self = CC_FULL
                  then (path_to_gval self)(hashable_state succ \<mapsto> gval succ)
                  else path_to_gval self)\<rparr>)"
  using assms
  by (auto simp: visit_successor_def new_SearchNode_def Let_def
           split: if_splits option.splits)

lemma visit_successor_total:
  "open_nodes self \<noteq> None \<Longrightarrow> \<exists>self'. visit_successor heur costbound self succ = Inr self'"
  by (auto simp: visit_successor_def new_SearchNode_def Let_def)

lemma ledger_le_refl: "ledger_le m m"
  by (simp add: ledger_le_def)

lemma ledger_le_trans: "ledger_le a b \<Longrightarrow> ledger_le b c \<Longrightarrow> ledger_le a c"
  unfolding ledger_le_def by (meson order_trans)

lemma ledger_le_write:
  assumes "\<not> is_prunable self succ" "cc self = CC_FULL"
  shows "ledger_le (path_to_gval self)
           ((path_to_gval self)(hashable_state succ \<mapsto> gval succ))"
  using assms
  by (auto simp: ledger_le_def is_prunable_def Let_def split: option.splits)

lemma visit_successor_ledger_le:
  assumes "visit_successor heur costbound self succ = Inr self'"
  shows "ledger_le (path_to_gval self) (path_to_gval self')"
  using visit_successor_Inr [OF assms] ledger_le_write [of self succ]
  by (auto simp: ledger_le_refl)

lemma ledger_covers_mono:
  assumes "ledger_covers self node" "ledger_le (path_to_gval self) (path_to_gval self')"
  shows "ledger_covers self' node"
  using assms
  by (fastforce simp: ledger_covers_def ledger_le_def split: option.splits)

lemma frontier_visit_successor:
  assumes "visit_successor heur costbound self succ = Inr self'"
  shows "set (frontier self') \<subseteq>
           insert \<lparr>state = succ, hval = heur succ, node_gval = gval succ,
                   index = SearchNode_n self\<rparr> (set (frontier self))"
proof -
  let ?node = "\<lparr>state = succ, hval = heur succ, node_gval = gval succ,
                index = SearchNode_n self\<rparr>"
  let ?lt = "node_lt (self\<lparr>SearchNode_n := SearchNode_n self + 1\<rparr>)"
  from visit_successor_Inr [OF assms]
  consider "frontier self' = frontier self"
    | c where "frontier self = open_list c" "frontier self' = open_list (insert_node ?lt c ?node)"
    by (auto simp: frontier_def)
  then show ?thesis
  proof cases
    case 1
    then show ?thesis by auto
  next
    case 2
    with set_insert_node [of ?lt c ?node] show ?thesis
      by simp
  qed
qed

lemma visit_successor_keeps:
  assumes "visit_successor heur costbound self succ = Inr self'"
  shows "cc self' = cc self \<and> expanded self' = expanded self \<and>
         (open_nodes self \<noteq> None \<longrightarrow> open_nodes self' \<noteq> None) \<and>
         search_stop_time self' = search_stop_time self \<and>
         stdout self' = stdout self \<and> clock_reads self' = clock_reads self \<and>
         search_start_time self' = search_start_time self"
  using visit_successor_Inr [OF assms] by auto

lemma visit_successor_invariant:
  assumes inv: "full_cc_invariant self"
    and v: "visit_successor heur costbound self succ = Inr self'"
  shows "full_cc_invariant self'"
proof -
  note k = visit_successor_keeps [OF v]
  note le = visit_successor_ledger_le [OF v]
  have full: "cc self = CC_FULL"
    using inv by (simp add: full_cc_invariant_def)
  have old: "ledger_covers self' node"
    if "node \<in> set (frontier self) \<or> node \<in> set (expanded self)" for node
    using that inv ledger_covers_mono [OF _ le]
    by (auto simp: full_cc_invariant_def list_all_iff)
  have new: "ledger_covers self' node"
    if "node \<in> set (frontier self')" "node \<notin> set (frontier self)" for node
  proof -
    have n: "node = \<lparr>state = succ, hval = heur succ, node_gval = gval succ,
                     index = SearchNode_n self\<rparr>"
      using that frontier_visit_successor [OF v] by auto
    have "frontier self' \<noteq> frontier self"
      using that by auto
    then have "path_to_gval self' = (path_to_gval self)(hashable_state succ \<mapsto> gval succ)"
      using visit_successor_Inr [OF v] full by (auto simp: frontier_def)
    with n show ?thesis
      by (simp add: ledger_covers_def)
  qed
  show ?thesis
    using inv k old new
    by (auto simp: full_cc_invariant_def list_all_iff)
qed

section \<open>The successor loop\<close>

lemma visit_successors_total:
  "open_nodes self \<noteq> None \<Longrightarrow> \<exists>self'. visit_successors heur costbound self succs = Inr self'"
proof (induction succs arbitrary: self)
  case Nil
  show ?case by simp
next
  case (Cons succ rest)
  obtain self1 where v: "visit_successor heur costbound self succ = Inr self1"
    using visit_successor_total [OF Cons.prems] by blast
  then have "open_nodes self1 \<noteq> None"
    using visit_successor_keeps [OF v] Cons.prems by simp
  from Cons.IH [OF this] v show ?case
    by simp
qed

lemma visit_successors_ledger_le:
  "visit_successors heur costbound self succs = Inr self' \<Longrightarrow>
     ledger_le (path_to_gval self) (path_to_gval self')"
proof (induction succs arbitrary: self)
  case Nil
  then show ?case by (simp add: ledger_le_refl)
next
  case (Cons succ rest)
  then obtain self1 where v: "visit_successor heur costbound self succ = Inr self1"
    and r: "visit_successors heur costbound self1 rest = Inr self'"
    by (auto split: sum.splits)
  from ledger_le_trans [OF visit_successor_ledger_le [OF v] Cons.IH [OF r]]
  show ?case .
qed

lemma visit_successors_invariant:
  "full_cc_invariant self \<Longrightarrow> visit_successors heur costbound self succs = Inr self' \<Longrightarrow>
     full_cc_invariant self'"
proof (induction succs arbitrary: self)
  case Nil
  then show ?case by simp
next
  case (Cons succ rest)
  then obtain self1 where v: "visit_successor heur costbound self succ = Inr self1"
    and r: "visit_successors heur costbound self1 rest = Inr self'"
    by (auto split: sum.splits)
  from Cons.IH [OF visit_successor_invariant [OF Cons.prems(1) v] r]
  show ?case .
qed

lemma visit_successors_keeps:
  "visit_successors heur costbound self succs = Inr self' \<Longrightarrow>
     cc self' = cc self \<and> expanded self' = expanded self \<and>
     search_stop_time self' = search_stop_time self \<and>
     stdout self' = stdout self \<and> clock_reads self' = clock_reads self \<and>
     search_start_time self' = search_start_time self"
proof (induction succs arbitrary: self)
  case Nil
  then show ?case by simp
next
  case (Cons succ rest)
  then obtain self1 where v: "visit_successor heur costbound self succ = Inr self1"
    and r: "visit_successors heur costbound self1 rest = Inr self'"
    by (auto split: sum.splits)
  from Cons.IH [OF r] visit_successor_keeps [OF v]
  show ?case by simp
qed

section \<open>One round of the search loop\<close>

lemma full_cc_invariant_cong:
  assumes "cc s' = cc s" "open_nodes s' = open_nodes s" "path_to_gval s' = path_to_gval s"
    "expanded s' = expanded s"
  shows "full_cc_invariant s' = full_cc_invariant s"
  using assms
  by (simp add: full_cc_invariant_def list_all_iff ledger_covers_def frontier_def)

lemma costs_never_rise_snoc:
  assumes "costs_never_rise nodes"
    and "\<forall>x \<in> set nodes. hashable_state (state x) = hashable_state (state node)
           \<longrightarrow> node_gval node \<le> node_gval x"
  shows "costs_never_rise (nodes @ [node])"
  unfolding costs_never_rise_def
proof (intro allI impI)
  fix i j
  assume ij: "i < j" and j: "j < length (nodes @ [node])"
    and same: "hashable_state (state ((nodes @ [node]) ! i))
                 = hashable_state (state ((nodes @ [node]) ! j))"
  have i: "i < length nodes"
    using ij j by simp
  show "node_gval ((nodes @ [node]) ! j) \<le> node_gval ((nodes @ [node]) ! i)"
  proof (cases "j < length nodes")
    case True
    with assms(1) ij same i show ?thesis
      by (simp add: costs_never_rise_def nth_append)
  next
    case False
    then have "j = length nodes"
      using j by simp
    moreover have "nodes ! i \<in> set nodes"
      using i by simp
    ultimately show ?thesis
      using assms(2) same i by (simp add: nth_append)
  qed
qed

lemma expand_invariant:
  assumes inv: "full_cc_invariant s"
    and cov: "path_to_gval s (hashable_state (state node)) = Some (node_gval node)"
  shows "\<exists>s'. expand successors heur costbound s node = Continue s' \<and> full_cc_invariant s'"
proof -
  let ?s1 = "s\<lparr>StateSpace_n := StateSpace_n s + length (successors (state node)),
               expanded := expanded s @ [node]\<rparr>"
  have "\<forall>x \<in> set (expanded s). hashable_state (state x) = hashable_state (state node)
          \<longrightarrow> node_gval node \<le> node_gval x"
    using inv cov
    by (auto simp: full_cc_invariant_def list_all_iff ledger_covers_def split: option.splits)
  moreover have "costs_never_rise (expanded s)"
    using inv by (simp add: full_cc_invariant_def)
  ultimately have "costs_never_rise (expanded s @ [node])"
    by (intro costs_never_rise_snoc)
  then have inv1: "full_cc_invariant ?s1"
    using inv cov
    by (simp add: full_cc_invariant_def list_all_iff ledger_covers_def frontier_def)
  then have "open_nodes ?s1 \<noteq> None"
    by (simp add: full_cc_invariant_def)
  from visit_successors_total [OF this]
  obtain s' where v: "visit_successors heur costbound ?s1 (successors (state node)) = Inr s'"
    by blast
  from visit_successors_invariant [OF inv1 v] v show ?thesis
    by (simp add: expand_def Let_def)
qed

lemma check_stale_invariant:
  assumes inv: "full_cc_invariant s" and cov: "ledger_covers s node"
  shows "\<exists>s'. check_stale successors heur costbound s node = Continue s'
           \<and> full_cc_invariant s'"
proof -
  have full: "cc s = CC_FULL"
    using inv by (simp add: full_cc_invariant_def)
  obtain recorded where r: "path_to_gval s (hashable_state (state node)) = Some recorded"
    and le: "recorded \<le> node_gval node"
    using cov by (auto simp: ledger_covers_def split: option.splits)
  show ?thesis
  proof (cases "recorded < node_gval node")
    case True
    with full r inv show ?thesis
      by (simp add: check_stale_def)
  next
    case False
    with le have "recorded = node_gval node"
      by simp
    with expand_invariant [OF inv, of node successors heur costbound] r full False
    show ?thesis
      by (simp add: check_stale_def)
  qed
qed

lemma searchOpen_round_invariant:
  assumes inv: "full_cc_invariant self"
  shows "\<exists>s'. round_engine (searchOpen_round clock successors goal heur costbound self) = Some s'
           \<and> full_cc_invariant s'"
proof -
  obtain c where c: "open_nodes self = Some c"
    using inv by (auto simp: full_cc_invariant_def)
  show ?thesis
  proof (cases "is_empty c")
    case True
    with c inv show ?thesis
      by (simp add: searchOpen_round_def)
  next
    case False
    from extract_node_nonempty [OF this]
    obtain node c' where e: "extract_node (node_lt self) c = Inr (node, c')"
      by fastforce
    note k = extract_node_keeps [OF e]
    let ?s1 = "self\<lparr>open_nodes := Some c'\<rparr>"
    let ?s2 = "?s1\<lparr>clock_reads := clock_reads ?s1 + 1\<rparr>"
    let ?s3 = "?s2\<lparr>stdout := stdout ?s2 @ [timeout_message]\<rparr>"
    have inv1: "full_cc_invariant ?s1"
      using inv c k
      by (auto simp: full_cc_invariant_def list_all_iff ledger_covers_def frontier_def)
    have inv2: "full_cc_invariant ?s2"
      using inv1 full_cc_invariant_cong [of ?s2 ?s1] by simp
    have inv3: "full_cc_invariant ?s3"
      using inv1 full_cc_invariant_cong [of ?s3 ?s1] by simp
    have "ledger_covers self node"
      using inv c k by (auto simp: full_cc_invariant_def list_all_iff frontier_def)
    then have cov1: "ledger_covers ?s1 node" and cov2: "ledger_covers ?s2 node"
      by (simp_all add: ledger_covers_def)
    from check_stale_invariant [OF inv1 cov1, of successors heur costbound]
    obtain t1 where t1: "check_stale successors heur costbound ?s1 node = Continue t1"
      "full_cc_invariant t1"
      by blast
    from check_stale_invariant [OF inv2 cov2, of successors heur costbound]
    obtain t2 where t2: "check_stale successors heur costbound ?s2 node = Continue t2"
      "full_cc_invariant t2"
      by blast
    show ?thesis
      using c False e inv1 inv3 t1 t2
      by (simp add: searchOpen_round_def Let_def)
  qed
qed

lemma expand_ledger_le:
  assumes "round_engine (expand successors heur costbound s node) = Some s'"
  shows "ledger_le (path_to_gval s) (path_to_gval s')"
proof -
  let ?s1 = "s\<lparr>StateSpace_n := StateSpace_n s + length (successors (state node)),
               expanded := expanded s @ [node]\<rparr>"
  from assms have "visit_successors heur costbound ?s1 (successors (state node)) = Inr s'"
    by (auto simp: expand_def Let_def split: sum.splits)
  from visit_successors_ledger_le [OF this] show ?thesis
    by simp
qed

lemma check_stale_ledger_le:
  assumes "round_engine (check_stale successors heur costbound s node) = Some s'"
  shows "ledger_le (path_to_gval s) (path_to_gval s')"
  using assms expand_ledger_le [of successors heur costbound s node s']
  by (auto simp: check_stale_def ledger_le_refl split: if_splits option.splits)

lemma searchOpen_round_ledger_le:
  assumes "round_engine (searchOpen_round clock successors goal heur costbound self) = Some s'"
  shows "ledger_le (path_to_gval self) (path_to_gval s')"
  using assms
  by (auto simp: searchOpen_round_def Let_def ledger_le_refl
           split: option.splits if_splits sum.splits dest!: check_stale_ledger_le)

section \<open>The search loop\<close>

lemma searchOpen_invariant:
  "full_cc_invariant self \<Longrightarrow>
     \<exists>s'. engine_after (searchOpen clock successors fuel goal heur costbound self) = Some s'
       \<and> full_cc_invariant s'"
proof (induction fuel arbitrary: self)
  case 0
  then show ?case by simp
next
  case (Suc fuel)
  from searchOpen_round_invariant [OF Suc.prems, of clock successors goal heur costbound]
  obtain s1 where r: "round_engine (searchOpen_round clock successors goal heur costbound self)
                        = Some s1" and i: "full_cc_invariant s1"
    by blast
  show ?case
  proof (cases "searchOpen_round clock successors goal heur costbound self")
    case (Continue t)
    with r i Suc.IH [of t] show ?thesis by simp
  next
    case (Return x t)
    with r i show ?thesis by simp
  next
    case (Raise e)
    with r show ?thesis by simp
  qed
qed

lemma searchOpen_ledger_le:
  "engine_after (searchOpen clock successors fuel goal heur costbound self) = Some s' \<Longrightarrow>
     ledger_le (path_to_gval self) (path_to_gval s')"
proof (induction fuel arbitrary: self)
  case 0
  then show ?case by (simp add: ledger_le_refl)
next
  case (Suc fuel)
  show ?case
  proof (cases "searchOpen_round clock successors goal heur costbound self")
    case (Continue t)
    then have "ledger_le (path_to_gval self) (path_to_gval t)"
      using searchOpen_round_ledger_le [of clock successors goal heur costbound self t] by simp
    moreover have "ledger_le (path_to_gval t) (path_to_gval s')"
      using Suc.prems Continue by (intro Suc.IH) simp
    ultimately show ?thesis
      by (rule ledger_le_trans)
  next
    case (Return x t)
    with Suc.prems
      searchOpen_round_ledger_le [of clock successors goal heur costbound self t]
    show ?thesis by simp
  next
    case (Raise e)
    with Suc.prems show ?thesis by simp
  qed
qed

lemma init_search_fields:
  "cc (init_search self init_state goal heur fval_fn) = cc self \<and>
   expanded (init_search self init_state goal heur fval_fn) = [] \<and>
   path_to_gval (init_search self init_state goal heur fval_fn) =
     (if cc self = CC_FULL
      then (path_to_gval self)(hashable_state init_state \<mapsto> gval init_state)
      else path_to_gval self) \<and>
   (\<exists>lt. open_nodes (init_search self init_state goal heur fval_fn) =
      Some (insert_node lt \<lparr>search_strategy = strategy self, open_list = []\<rparr>
              \<lparr>state = init_state, hval = heur init_state, node_gval = gval init_state,
               index = 0\<rparr>))"
  by (simp add: init_search_def init_statistics_def OpenNodeCollection_init_def
        new_SearchNode_def Let_def) blast

lemma init_search_invariant:
  assumes "cc self = CC_FULL"
  shows "full_cc_invariant (init_search self init_state goal heur fval_fn)"
proof -
  let ?s = "init_search self init_state goal heur fval_fn"
  let ?node = "\<lparr>state = init_state, hval = heur init_state, node_gval = gval init_state,
                index = 0\<rparr>"
  note f = init_search_fields [of self init_state goal heur fval_fn]
  from f obtain lt where o: "open_nodes ?s =
      Some (insert_node lt \<lparr>search_strategy = strategy self, open_list = []\<rparr> ?node)"
    by blast
  have "set (frontier ?s) \<subseteq> {?node}"
    using set_insert_node [of lt "\<lparr>search_strategy = strategy self, open_list = []\<rparr>" ?node] o
    by (simp add: frontier_def)
  moreover have "ledger_covers ?s ?node"
    using f assms by (simp add: ledger_covers_def)
  ultimately have "list_all (ledger_covers ?s) (frontier ?s)"
    by (auto simp: list_all_iff)
  then show ?thesis
    using f o assms by (simp add: full_cc_invariant_def costs_never_rise_def)
qed

lemma search_begin_keeps:
  "cc (search_begin clock self timebound) = cc self \<and>
   open_nodes (search_begin clock self timebound) = open_nodes self \<and>
   path_to_gval (search_begin clock self timebound) = path_to_gval self \<and>
   expanded (search_begin clock self timebound) = expanded self \<and>
   stdout (search_begin clock self timebound) = stdout self \<and>
   goal_fn (search_begin clock self timebound) = goal_fn self \<and>
   heur_fn (search_begin clock self timebound) = heur_fn self"
  by (simp add: search_begin_def Let_def split: option.splits)

lemma search_finish_keeps:
  "search_finish clock goal_node s = (result, s') \<Longrightarrow>
     s' = s\<lparr>clock_reads := clock_reads s + 1\<rparr>"
  by (auto simp: search_finish_def Let_def split: option.splits)

section \<open>A whole search\<close>

lemma search_invariant:
  assumes inv: "full_cc_invariant self"
  shows "\<exists>s'. engine_after (search clock successors fuel self timebound costbound) = Some s'
           \<and> full_cc_invariant s'"
proof -
  let ?s1 = "search_begin clock self timebound"
  let ?run = "searchOpen clock successors fuel (goal_fn ?s1) (heur_fn ?s1) costbound ?s1"
  have "full_cc_invariant ?s1"
    using inv full_cc_invariant_cong [of ?s1 self] search_begin_keeps [of clock self timebound]
    by simp
  from searchOpen_invariant [OF this]
  obtain s2 where e: "engine_after ?run = Some s2" and i: "full_cc_invariant s2"
    by blast
  show ?thesis
  proof (cases ?run)
    case (Returned g t)
    obtain result s3 where f: "search_finish clock g t = (result, s3)"
      by (cases "search_finish clock g t")
    from search_finish_keeps [OF f] have "full_cc_invariant s3 = full_cc_invariant t"
      by (intro full_cc_invariant_cong) simp_all
    with Returned e i f show ?thesis
      by (simp add: search_def Let_def)
  next
    case (Raised x)
    with e show ?thesis by simp
  next
    case (Unfinished t)
    with e i show ?thesis
      by (simp add: search_def Let_def)
  qed
qed

lemma search_ledger_le:
  assumes "engine_after (search clock successors fuel self timebound costbound) = Some s'"
  shows "ledger_le (path_to_gval self) (path_to_gval s')"
proof -
  let ?s1 = "search_begin clock self timebound"
  let ?run = "searchOpen clock successors fuel (goal_fn ?s1) (heur_fn ?s1) costbound ?s1"
  have b: "path_to_gval ?s1 = path_to_gval self"
    using search_begin_keeps [of clock self timebound] by simp
  show ?thesis
  proof (cases ?run)
    case (Returned g t)
    obtain result s3 where f: "search_finish clock g t = (result, s3)"
      by (cases "search_finish clock g t")
    with Returned assms have "s' = s3"
      by (simp add: search_def Let_def)
    with search_finish_keeps [OF f] have "path_to_gval s' = path_to_gval t"
      by simp
    with searchOpen_ledger_le [of clock successors fuel "goal_fn ?s1" "heur_fn ?s1"
        costbound ?s1 t] Returned b
    show ?thesis by simp
  next
    case (Raised x)
    with assms show ?thesis by (simp add: search_def Let_def)
  next
    case (Unfinished t)
    with assms have "s' = t"
      by (simp add: search_def Let_def)
    with searchOpen_ledger_le [of clock successors fuel "goal_fn ?s1" "heur_fn ?s1"
        costbound ?s1 t] Unfinished b
    show ?thesis by simp
  qed
qed

section \<open>Full cycle checking over a run\<close>

text \<open>
  Claim C2, as stated, fails: breadth-first search with full cycle checking on the
  diamond expands identity 3 twice, both times at cost 2. The second arrival is not
  pruned when it is generated, because its cost is not higher than the recorded one,
  and it is not skipped when it is extracted, because the recorded cost is not lower
  than its own.
\<close>

theorem same_identity_expanded_twice_counterexample:
  "(case search still_clock diamond 10 (ready_engine ''breadth_first'' ''full'' no_goal)
           None None of
      Returned r s \<Rightarrow>
        cc s = CC_FULL \<and>
        identity_costs (expanded s) = [(0, 0), (1, 1), (2, 1), (3, 2), (3, 2)]
    | _ \<Rightarrow> False)"
  by (simp add: run_defs eval_nat_numeral)

text \<open>
  Claim C2, amended: under full cycle checking, a search started by \<^verbatim>\<open>init_search\<close>
  never raises, and at every point of the run (after any number of rounds, or when
  the search has returned) no identity has been expanded again at a strictly higher
  cost than at an earlier expansion of it; an identity can be expanded again at the
  same cost. The cost the ledger records for an identity only decreases or stays
  equal: between \<^verbatim>\<open>init_search\<close> and every later point of the run, and between any
  engine state and the state any number of rounds later.
\<close>

theorem full_cc_expansion_costs_never_rise:
  assumes "cc self = CC_FULL"
  shows "(case engine_after (search clock successors fuel
                  (init_search self init_state goal heur fval_fn) timebound costbound) of
            None \<Rightarrow> False
          | Some s \<Rightarrow>
              costs_never_rise (expanded s) \<and>
              ledger_le (path_to_gval (init_search self init_state goal heur fval_fn))
                (path_to_gval s)) \<and>
         (case engine_after
                 (searchOpen clock' successors' fuel' goal' heur' costbound' self') of
            None \<Rightarrow> True
          | Some s' \<Rightarrow> ledger_le (path_to_gval self') (path_to_gval s'))"
proof -
  let ?s0 = "init_search self init_state goal heur fval_fn"
  from search_invariant [OF init_search_invariant [OF assms]]
  obtain s where e: "engine_after (search clock successors fuel ?s0 timebound costbound) = Some s"
    and i: "full_cc_invariant s"
    by blast
  have "ledger_le (path_to_gval self') (path_to_gval s')"
    if "engine_after (searchOpen clock' successors' fuel' goal' heur' costbound' self')
          = Some s'" for s'
    using that by (rule searchOpen_ledger_le)
  with search_ledger_le [OF e] e i show ?thesis
    by (auto simp: full_cc_invariant_def split: option.splits)
qed

theorem full_cc_expansion_costs_never_rise_witness:
  "cc (SearchEngine_fields\<lparr>cc := CC_FULL\<rparr> :: nat SearchEngine) = CC_FULL \<and>
   (case engine_after (search still_clock diamond 10
           (init_search (SearchEngine_fields\<lparr>cc := CC_FULL\<rparr>) start_state no_goal zero_hfn
              default_fval_function) None None) of
      None \<Rightarrow> False
    | Some s \<Rightarrow>
        costs_never_rise (expanded s) \<and>
        ledger_le (path_to_gval (init_search (SearchEngine_fields\<lparr>cc := CC_FULL\<rparr>)
                     start_state no_goal zero_hfn default_fval_function))
          (path_to_gval s)) \<and>
   (case engine_after (searchOpen still_clock diamond 1 no_goal zero_hfn None after_two_rounds) of
      None \<Rightarrow> True
    | Some s' \<Rightarrow> ledger_le (path_to_gval after_two_rounds) (path_to_gval s'))"
  using full_cc_expansion_costs_never_rise
    [where self = "SearchEngine_fields\<lparr>cc := CC_FULL\<rparr>" and clock = still_clock
       and successors = diamond and fuel = 10 and init_state = start_state
       and goal = no_goal and heur = zero_hfn and fval_fn = default_fval_function
       and timebound = None and costbound = None and clock' = still_clock
       and successors' = diamond and fuel' = 1 and goal' = no_goal and heur' = zero_hfn
       and costbound' = None and self' = after_two_rounds]
  by simp

section \<open>Overwriting a ledger entry\<close>

text \<open>
  Claim C3, as stated, fails: an entry is overwritten with an equal cost. After two
  rounds on the diamond the ledger holds identity 3 at cost 2; the second arrival at
  identity 3, at cost 2, is inserted into the frontier, and the assignment
  \<^verbatim>\<open>self.path_to_gval[hash_state] = succ.gval\<close> that follows the insertion stores cost 2
  over cost 2.
\<close>

theorem ledger_overwrite_equal_cost_counterexample:
  "path_to_gval after_two_rounds (hashable_state second_arrival) = Some 2 \<and>
   (case visit_successor zero_hfn None after_two_rounds second_arrival of
      Inl e \<Rightarrow> False
    | Inr self' \<Rightarrow>
        cc after_two_rounds = CC_FULL \<and>
        length (frontier self') = length (frontier after_two_rounds) + 1 \<and>
        path_to_gval self' (hashable_state second_arrival) = Some (gval second_arrival) \<and>
        gval second_arrival = 2)"
  by (simp add: run_defs eval_nat_numeral)

text \<open>
  Claim C3, amended: when the ledger has an entry for a successor's identity, visiting
  the successor either leaves the ledger as it is, or (under full cycle checking, when
  the successor is inserted) replaces the stored cost of that identity with the
  successor's cost, which is lower than or equal to the stored one, never higher.
\<close>

theorem ledger_overwrite_not_higher:
  assumes "path_to_gval self (hashable_state succ) = Some old"
    and "visit_successor heur costbound self succ = Inr self'"
  shows "path_to_gval self' = path_to_gval self \<or>
         (cc self = CC_FULL \<and> gval succ \<le> old \<and>
          path_to_gval self' = (path_to_gval self)(hashable_state succ \<mapsto> gval succ))"
  using visit_successor_Inr [OF assms(2)] assms(1)
  by (auto simp: is_prunable_def Let_def split: if_splits)

theorem ledger_overwrite_not_higher_witness:
  "path_to_gval after_two_rounds (hashable_state second_arrival) = Some 2 \<and>
   (\<exists>self'. visit_successor zero_hfn None after_two_rounds second_arrival = Inr self' \<and>
      (path_to_gval self' = path_to_gval after_two_rounds \<or>
       (cc after_two_rounds = CC_FULL \<and> gval second_arrival \<le> 2 \<and>
        path_to_gval self' = (path_to_gval after_two_rounds)
          (hashable_state second_arrival \<mapsto> gval second_arrival))))"
proof -
  have a: "path_to_gval after_two_rounds (hashable_state second_arrival) = Some 2"
    by (simp add: run_defs eval_nat_numeral)
  have "open_nodes after_two_rounds \<noteq> None"
    by (simp add: run_defs eval_nat_numeral)
  from visit_successor_total [OF this]
  obtain self' where v: "visit_successor zero_hfn None after_two_rounds second_arrival = Inr self'"
    by blast
  from ledger_overwrite_not_higher [OF a v] a v show ?thesis
    by blast
qed

section \<open>The ledger lookup before an expansion\<close>

text \<open>
  Claim C9: under full cycle checking, every node in the frontier has an entry for its
  identity in the ledger, from \<^verbatim>\<open>init_search\<close> on and after every round of the search,
  and the search never raises: the lookup \<^verbatim>\<open>self.path_to_gval[...]\<close> made on every
  extracted node always finds its key.
\<close>

theorem full_cc_ledger_lookup_never_fails:
  assumes "cc self = CC_FULL"
  shows "(\<forall>node \<in> set (frontier (init_search self init_state goal heur fval_fn)).
            hashable_state (state node)
              \<in> dom (path_to_gval (init_search self init_state goal heur fval_fn))) \<and>
         (case search clock successors fuel
                 (init_search self init_state goal heur fval_fn) timebound costbound of
            Raised e \<Rightarrow> False
          | Returned r s \<Rightarrow>
              \<forall>node \<in> set (frontier s). hashable_state (state node) \<in> dom (path_to_gval s)
          | Unfinished s \<Rightarrow>
              \<forall>node \<in> set (frontier s). hashable_state (state node) \<in> dom (path_to_gval s))"
proof -
  let ?s0 = "init_search self init_state goal heur fval_fn"
  have d: "\<forall>node \<in> set (frontier s). hashable_state (state node) \<in> dom (path_to_gval s)"
    if "full_cc_invariant s" for s :: "'a SearchEngine"
    using that
    by (auto simp: full_cc_invariant_def list_all_iff ledger_covers_def split: option.splits)
  note i0 = init_search_invariant [OF assms, of init_state goal heur fval_fn]
  from search_invariant [OF i0]
  obtain s where e: "engine_after (search clock successors fuel ?s0 timebound costbound) = Some s"
    and i: "full_cc_invariant s"
    by blast
  show ?thesis
  proof (cases "search clock successors fuel ?s0 timebound costbound")
    case (Returned r t)
    with e i d [of t] d [OF i0] show ?thesis by simp
  next
    case (Raised x)
    with e show ?thesis by simp
  next
    case (Unfinished t)
    with e i d [of t] d [OF i0] show ?thesis by simp
  qed
qed

theorem full_cc_ledger_lookup_never_fails_witness:
  "cc (SearchEngine_fields\<lparr>strategy := ASTAR, cc := CC_FULL\<rparr> :: nat SearchEngine) = CC_FULL \<and>
   search still_clock diamond 10
       (init_search (SearchEngine_fields\<lparr>strategy := ASTAR, cc := CC_FULL\<rparr>) start_state
          no_goal zero_hfn default_fval_function) None None \<noteq> Raised KeyError"
  using full_cc_ledger_lookup_never_fails
    [where self = "SearchEngine_fields\<lparr>strategy := ASTAR, cc := CC_FULL\<rparr>"
       and clock = still_clock and successors = diamond and fuel = 10
       and init_state = start_state and goal = no_goal and heur = zero_hfn
       and fval_fn = default_fval_function and timebound = None and costbound = None]
  by (auto split: outcome.splits)

section \<open>Searches without a deadline\<close>

lemma expand_keeps:
  assumes "round_engine (expand successors heur costbound s node) = Some s'"
  shows "stdout s' = stdout s \<and> search_stop_time s' = search_stop_time s \<and>
         clock_reads s' = clock_reads s"
proof -
  let ?s1 = "s\<lparr>StateSpace_n := StateSpace_n s + length (successors (state node)),
               expanded := expanded s @ [node]\<rparr>"
  from assms have "visit_successors heur costbound ?s1 (successors (state node)) = Inr s'"
    by (auto simp: expand_def Let_def split: sum.splits)
  from visit_successors_keeps [OF this] show ?thesis
    by simp
qed

lemma check_stale_keeps:
  assumes "round_engine (check_stale successors heur costbound s node) = Some s'"
  shows "stdout s' = stdout s \<and> search_stop_time s' = search_stop_time s \<and>
         clock_reads s' = clock_reads s"
  using assms expand_keeps [of successors heur costbound s node s']
  by (auto simp: check_stale_def split: if_splits option.splits)

lemma check_stale_no_return:
  "check_stale successors heur costbound s node \<noteq> Return r s'"
  by (auto simp: check_stale_def expand_def Let_def split: option.splits sum.splits)

lemma searchOpen_round_no_deadline:
  assumes "search_stop_time self = None"
    and "round_engine (searchOpen_round clock successors goal heur costbound self) = Some s'"
  shows "stdout s' = stdout self \<and> search_stop_time s' = None \<and>
         clock_reads s' = clock_reads self"
  using assms
  by (auto simp: searchOpen_round_def Let_def stop_time_set_def
           split: option.splits if_splits sum.splits dest!: check_stale_keeps)

lemma searchOpen_round_failure_no_deadline:
  assumes "search_stop_time self = None"
    and "searchOpen_round clock successors goal heur costbound self = Return None s'"
  shows "frontier s' = []"
  using assms
  by (auto simp: searchOpen_round_def Let_def stop_time_set_def frontier_def is_empty_def
        check_stale_no_return split: option.splits if_splits sum.splits)

lemma searchOpen_no_deadline:
  "search_stop_time self = None \<Longrightarrow>
   engine_after (searchOpen clock successors fuel goal heur costbound self) = Some s' \<Longrightarrow>
     stdout s' = stdout self \<and> search_stop_time s' = None \<and> clock_reads s' = clock_reads self"
proof (induction fuel arbitrary: self)
  case 0
  then show ?case by simp
next
  case (Suc fuel)
  show ?case
  proof (cases "searchOpen_round clock successors goal heur costbound self")
    case (Continue t)
    then have k: "stdout t = stdout self \<and> search_stop_time t = None \<and>
                  clock_reads t = clock_reads self"
      using searchOpen_round_no_deadline [OF Suc.prems(1), of clock successors goal heur
          costbound t] by simp
    have "stdout s' = stdout t \<and> search_stop_time s' = None \<and> clock_reads s' = clock_reads t"
      using Suc.prems(2) Continue k by (intro Suc.IH) simp_all
    with k show ?thesis by simp
  next
    case (Return x t)
    with Suc.prems
      searchOpen_round_no_deadline [OF Suc.prems(1), of clock successors goal heur costbound t]
    show ?thesis by simp
  next
    case (Raise e)
    with Suc.prems show ?thesis by simp
  qed
qed

lemma searchOpen_failure_no_deadline:
  "search_stop_time self = None \<Longrightarrow>
   searchOpen clock successors fuel goal heur costbound self = Returned None s' \<Longrightarrow>
     frontier s' = []"
proof (induction fuel arbitrary: self)
  case 0
  then show ?case by simp
next
  case (Suc fuel)
  show ?case
  proof (cases "searchOpen_round clock successors goal heur costbound self")
    case (Continue t)
    then have "search_stop_time t = None"
      using searchOpen_round_no_deadline [OF Suc.prems(1), of clock successors goal heur
          costbound t] by simp
    then show ?thesis
      using Suc.prems(2) Continue by (intro Suc.IH) simp_all
  next
    case (Return x t)
    with Suc.prems
      searchOpen_round_failure_no_deadline [OF Suc.prems(1), of clock successors goal heur
        costbound t]
    show ?thesis by simp
  next
    case (Raise e)
    with Suc.prems show ?thesis by simp
  qed
qed

text \<open>
  Claim C10: a search with a time bound of 0 is the search with no time bound: the two
  calls give the same result and leave the same engine. No stop time is set, so the
  search prints no timeout message, and when it returns failure the frontier is
  empty: it never stops because of a deadline.
\<close>

theorem timebound_zero_is_no_timebound:
  "search clock successors fuel self (Some 0) costbound
     = search clock successors fuel self None costbound \<and>
   search_stop_time (search_begin clock self (Some 0)) = None \<and>
   (case search clock successors fuel self (Some 0) costbound of
      Returned (r, stats) s \<Rightarrow> stdout s = stdout self \<and> (r = None \<longrightarrow> frontier s = [])
    | Raised e \<Rightarrow> True
    | Unfinished s \<Rightarrow> stdout s = stdout self)"
proof -
  let ?s1 = "search_begin clock self (Some 0)"
  let ?run = "searchOpen clock successors fuel (goal_fn ?s1) (heur_fn ?s1) costbound ?s1"
  have none: "search_stop_time ?s1 = None"
    by (simp add: search_begin_def)
  have out: "stdout ?s1 = stdout self"
    by (simp add: search_begin_def)
  have same: "search clock successors fuel self (Some 0) costbound
                = search clock successors fuel self None costbound"
    by (simp add: search_def search_begin_def)
  have third: "(case search clock successors fuel self (Some 0) costbound of
      Returned (r, stats) s \<Rightarrow> stdout s = stdout self \<and> (r = None \<longrightarrow> frontier s = [])
    | Raised e \<Rightarrow> True
    | Unfinished s \<Rightarrow> stdout s = stdout self)"
  proof (cases ?run)
    case (Returned g t)
    from searchOpen_no_deadline [OF none, of clock successors fuel "goal_fn ?s1" "heur_fn ?s1"
        costbound t] Returned out
    have o: "stdout t = stdout self" by simp
    have f: "frontier t = []" if "g = None"
      using searchOpen_failure_no_deadline [OF none, of clock successors fuel "goal_fn ?s1"
          "heur_fn ?s1" costbound t] Returned that by simp
    show ?thesis
      using Returned o f
      by (auto simp: search_def search_finish_def Let_def frontier_def split: option.splits)
  next
    case (Raised e)
    then show ?thesis by (simp add: search_def)
  next
    case (Unfinished t)
    from searchOpen_no_deadline [OF none, of clock successors fuel "goal_fn ?s1" "heur_fn ?s1"
        costbound t] Unfinished out
    show ?thesis by (simp add: search_def)
  qed
  from same none third show ?thesis by blast
qed

theorem timebound_zero_is_no_timebound_witness:
  "search slow_clock dead_end 5 (ready_engine ''breadth_first'' ''full'' no_goal) (Some 0) None
     = search slow_clock dead_end 5 (ready_engine ''breadth_first'' ''full'' no_goal) None None \<and>
   (case search slow_clock dead_end 5 (ready_engine ''breadth_first'' ''full'' no_goal)
           (Some 0) None of
      Returned (r, stats) s \<Rightarrow>
        r = None \<and> frontier s = [] \<and> stdout s = [] \<and> identity_costs (expanded s) = [(0, 0)]
    | Raised e \<Rightarrow> False
    | Unfinished s \<Rightarrow> False)"
  using timebound_zero_is_no_timebound
    [where clock = slow_clock and successors = dead_end and fuel = 5
       and self = "ready_engine ''breadth_first'' ''full'' no_goal" and costbound = None]
  by (simp add: run_defs eval_nat_numeral)

section \<open>Timeout and exhaustion\<close>

text \<open>
  Claim C4, as stated, fails: the value \<^verbatim>\<open>search\<close> returns does not tell a timeout from
  an exhausted frontier. On the state space with the start state alone and a time
  bound of 1, the search under the fast clock stops at the deadline before it expands
  anything, and the search under the slow clock expands the start state and finds
  the frontier empty; both return the same failure value with the same statistics.
  Only the line printed at the timeout differs.
\<close>

theorem timeout_like_exhaustion_counterexample:
  "returned_value (search fast_clock dead_end 5
       (ready_engine ''breadth_first'' ''full'' no_goal) (Some 1) None)
     = Some (None, \<lparr>states_expanded = 1, states_generated = 1, states_pruned_cycles = 0,
                    states_pruned_cost = 0, total_time = 3\<rparr>) \<and>
   returned_value (search slow_clock dead_end 5
       (ready_engine ''breadth_first'' ''full'' no_goal) (Some 1) None)
     = Some (None, \<lparr>states_expanded = 1, states_generated = 1, states_pruned_cycles = 0,
                    states_pruned_cost = 0, total_time = 3\<rparr>) \<and>
   (case engine_after (search fast_clock dead_end 5
           (ready_engine ''breadth_first'' ''full'' no_goal) (Some 1) None) of
      None \<Rightarrow> False
    | Some s \<Rightarrow> stdout s = [timeout_message] \<and> expanded s = []) \<and>
   (case engine_after (search slow_clock dead_end 5
           (ready_engine ''breadth_first'' ''full'' no_goal) (Some 1) None) of
      None \<Rightarrow> False
    | Some s \<Rightarrow> stdout s = [] \<and> identity_costs (expanded s) = [(0, 0)] \<and> frontier s = [])"
  by (simp add: run_defs eval_nat_numeral)

lemma searchOpen_more_fuel:
  "searchOpen clock successors n goal heur costbound self = Unfinished t \<Longrightarrow>
     searchOpen clock successors (n + m) goal heur costbound self
       = searchOpen clock successors m goal heur costbound t"
proof (induction n arbitrary: self)
  case 0
  then show ?case by simp
next
  case (Suc n)
  show ?case
  proof (cases "searchOpen_round clock successors goal heur costbound self")
    case (Continue s)
    with Suc.prems Suc.IH [of s] show ?thesis by simp
  next
    case (Return r s)
    with Suc.prems show ?thesis by simp
  next
    case (Raise e)
    with Suc.prems show ?thesis by simp
  qed
qed

lemma extract_node_Inr_nonempty:
  "extract_node lt c = Inr r \<Longrightarrow> \<not> is_empty c"
  by (cases "search_strategy c")
     (auto simp: extract_node_def is_empty_def heappop_def split: if_splits)

lemma search_after_rounds:
  assumes run: "searchOpen clock successors fuel (goal_fn self) (heur_fn self) costbound
                  (search_begin clock self timebound) = Unfinished t"
    and last: "searchOpen_round clock successors (goal_fn self) (heur_fn self) costbound t
                 = Return r t'"
  shows "search clock successors (Suc (fuel + extra)) self timebound costbound
           = Returned
               (map_option state r,
                \<lparr>states_expanded = SearchNode_n t', states_generated = StateSpace_n t',
                 states_pruned_cycles = n_cc_pruned t', states_pruned_cost = n_cost_pruned t',
                 total_time = clock (clock_reads t') - search_start_time t'\<rparr>)
               (t'\<lparr>clock_reads := clock_reads t' + 1\<rparr>)"
proof -
  let ?s1 = "search_begin clock self timebound"
  have g: "goal_fn ?s1 = goal_fn self" "heur_fn ?s1 = heur_fn self"
    using search_begin_keeps [of clock self timebound] by simp_all
  have run': "searchOpen clock successors fuel (goal_fn ?s1) (heur_fn ?s1) costbound ?s1
                = Unfinished t"
    using run g by simp
  have last': "searchOpen_round clock successors (goal_fn ?s1) (heur_fn ?s1) costbound t
                 = Return r t'"
    using last g by simp
  have "searchOpen clock successors (fuel + Suc extra) (goal_fn ?s1) (heur_fn ?s1) costbound ?s1
          = searchOpen clock successors (Suc extra) (goal_fn ?s1) (heur_fn ?s1) costbound t"
    using run' by (rule searchOpen_more_fuel)
  also have "\<dots> = Returned r t'"
    using last' by simp
  finally have e: "searchOpen clock successors (Suc (fuel + extra)) (goal_fn ?s1) (heur_fn ?s1)
                     costbound ?s1 = Returned r t'"
    by (simp only: add_Suc_right)
  show ?thesis
    unfolding search_def Let_def e
    by (simp add: search_finish_def Let_def split: option.splits)
qed

text \<open>
  Claim C4, amended: a search that terminates because the deadline passed and a search
  that terminates because the frontier was exhausted both return normally, with the
  failure value and the statistics. Whenever the loop has reached, after any number of
  rounds, an engine whose frontier is empty, or one whose next node is no goal while
  the clock is past the stop time, \<^verbatim>\<open>search\<close> returns (given the rounds left to run
  that one more round) the failure value together with the statistics read from the
  engine's counters and the clock. The result holds nothing else: no field of it says
  which of the two happened; the timeout shows only in the line printed.
\<close>

theorem timeout_and_exhaustion_return_failure:
  assumes "searchOpen clock successors fuel (goal_fn self) (heur_fn self) costbound
             (search_begin clock self timebound) = Unfinished t"
    and "open_nodes t = Some c"
  shows "(is_empty c \<longrightarrow>
            search clock successors (Suc (fuel + extra)) self timebound costbound
              = Returned
                  (None,
                   \<lparr>states_expanded = SearchNode_n t, states_generated = StateSpace_n t,
                    states_pruned_cycles = n_cc_pruned t,
                    states_pruned_cost = n_cost_pruned t,
                    total_time = clock (clock_reads t) - search_start_time t\<rparr>)
                  (t\<lparr>clock_reads := clock_reads t + 1\<rparr>)) \<and>
         (extract_node (node_lt t) c = Inr (node, c') \<and> \<not> goal_fn self (state node) \<and>
          search_stop_time t = Some deadline \<and> deadline \<noteq> 0 \<and>
          clock (clock_reads t) > deadline \<longrightarrow>
            search clock successors (Suc (fuel + extra)) self timebound costbound
              = Returned
                  (None,
                   \<lparr>states_expanded = SearchNode_n t, states_generated = StateSpace_n t,
                    states_pruned_cycles = n_cc_pruned t,
                    states_pruned_cost = n_cost_pruned t,
                    total_time = clock (clock_reads t + 1) - search_start_time t\<rparr>)
                  (t\<lparr>open_nodes := Some c', clock_reads := clock_reads t + 2,
                      stdout := stdout t @ [timeout_message]\<rparr>))"
proof (intro conjI impI)
  assume "is_empty c"
  with assms(2)
  have "searchOpen_round clock successors (goal_fn self) (heur_fn self) costbound t
          = Return None t"
    by (simp add: searchOpen_round_def)
  from search_after_rounds [OF assms(1) this, of extra]
  show "search clock successors (Suc (fuel + extra)) self timebound costbound
          = Returned
              (None,
               \<lparr>states_expanded = SearchNode_n t, states_generated = StateSpace_n t,
                states_pruned_cycles = n_cc_pruned t,
                states_pruned_cost = n_cost_pruned t,
                total_time = clock (clock_reads t) - search_start_time t\<rparr>)
              (t\<lparr>clock_reads := clock_reads t + 1\<rparr>)"
    by simp
next
  assume h: "extract_node (node_lt t) c = Inr (node, c') \<and> \<not> goal_fn self (state node) \<and>
             search_stop_time t = Some deadline \<and> deadline \<noteq> 0 \<and>
             clock (clock_reads t) > deadline"
  then have "\<not> is_empty c"
    using extract_node_Inr_nonempty by blast
  with h assms(2)
  have "searchOpen_round clock successors (goal_fn self) (heur_fn self) costbound t
          = Return None (t\<lparr>open_nodes := Some c', clock_reads := clock_reads t + 1,
                            stdout := stdout t @ [timeout_message]\<rparr>)"
    by (simp add: searchOpen_round_def stop_time_set_def Let_def)
  from search_after_rounds [OF assms(1) this, of extra]
  show "search clock successors (Suc (fuel + extra)) self timebound costbound
          = Returned
              (None,
               \<lparr>states_expanded = SearchNode_n t, states_generated = StateSpace_n t,
                states_pruned_cycles = n_cc_pruned t,
                states_pruned_cost = n_cost_pruned t,
                total_time = clock (clock_reads t + 1) - search_start_time t\<rparr>)
              (t\<lparr>open_nodes := Some c', clock_reads := clock_reads t + 2,
                  stdout := stdout t @ [timeout_message]\<rparr>)"
    by simp
qed

theorem timeout_and_exhaustion_return_failure_witness:
  "searchOpen slow_clock dead_end 1
       (goal_fn (ready_engine ''breadth_first'' ''full'' no_goal))
       (heur_fn (ready_engine ''breadth_first'' ''full'' no_goal)) None
       (search_begin slow_clock (ready_engine ''breadth_first'' ''full'' no_goal) (Some 1))
     = Unfinished exhausted_engine \<and>
   open_nodes exhausted_engine = Some \<lparr>search_strategy = BREADTH_FIRST, open_list = []\<rparr> \<and>
   is_empty \<lparr>search_strategy = BREADTH_FIRST, open_list = [] :: nat SearchNode list\<rparr> \<and>
   search slow_clock dead_end 2 (ready_engine ''breadth_first'' ''full'' no_goal) (Some 1) None
     = Returned
         (None, \<lparr>states_expanded = 1, states_generated = 1, states_pruned_cycles = 0,
                 states_pruned_cost = 0, total_time = 3\<rparr>)
         (exhausted_engine\<lparr>clock_reads := 3\<rparr>) \<and>
   searchOpen fast_clock dead_end 0
       (goal_fn (ready_engine ''breadth_first'' ''full'' no_goal))
       (heur_fn (ready_engine ''breadth_first'' ''full'' no_goal)) None
       (search_begin fast_clock (ready_engine ''breadth_first'' ''full'' no_goal) (Some 1))
     = Unfinished timed_engine \<and>
   open_nodes timed_engine = Some \<lparr>search_strategy = BREADTH_FIRST, open_list = [start_node]\<rparr> \<and>
   extract_node (node_lt timed_engine)
       \<lparr>search_strategy = BREADTH_FIRST, open_list = [start_node]\<rparr>
     = Inr (start_node, \<lparr>search_strategy = BREADTH_FIRST, open_list = []\<rparr>) \<and>
   \<not> goal_fn (ready_engine ''breadth_first'' ''full'' no_goal) (state start_node) \<and>
   search_stop_time timed_engine = Some 1 \<and>
   fast_clock (clock_reads timed_engine) > 1 \<and>
   search fast_clock dead_end 1 (ready_engine ''breadth_first'' ''full'' no_goal) (Some 1) None
     = Returned
         (None, \<lparr>states_expanded = 1, states_generated = 1, states_pruned_cycles = 0,
                 states_pruned_cost = 0, total_time = 3\<rparr>)
         (timed_engine\<lparr>open_nodes := Some \<lparr>search_strategy = BREADTH_FIRST, open_list = []\<rparr>,
                        clock_reads := 3, stdout := [timeout_message]\<rparr>)"
  using timeout_and_exhaustion_return_failure
    [where clock = slow_clock and successors = dead_end and fuel = 1
       and self = "ready_engine ''breadth_first'' ''full'' no_goal" and costbound = None
       and timebound = "Some 1" and t = exhausted_engine
       and c = "\<lparr>search_strategy = BREADTH_FIRST, open_list = []\<rparr>" and extra = 0
       and node = start_node and c' = "\<lparr>search_strategy = BREADTH_FIRST, open_list = []\<rparr>"
       and deadline = 1]
    timeout_and_exhaustion_return_failure
    [where clock = fast_clock and successors = dead_end and fuel = 0
       and self = "ready_engine ''breadth_first'' ''full'' no_goal" and costbound = None
       and timebound = "Some 1" and t = timed_engine
       and c = "\<lparr>search_strategy = BREADTH_FIRST, open_list = [start_node]\<rparr>"
       and extra = 0 and node = start_node
       and c' = "\<lparr>search_strategy = BREADTH_FIRST, open_list = []\<rparr>" and deadline = 1]
  by (simp add: run_defs eval_nat_numeral)

section \<open>The statistics\<close>

text \<open>
  Claim C5 does not hold of the code: \<^verbatim>\<open>search\<close> reports \<^verbatim>\<open>SearchNode.n\<close>, the number of
  nodes constructed, as the expanded count. When the start state is a goal, the
  search returns it with an expanded count of 1 although \<^verbatim>\<open>successors()\<close> was never
  called; the generated count, 1, is the number of states generated.
\<close>

theorem states_expanded_counts_created_nodes:
  "(case search still_clock diamond 5 (ready_engine ''breadth_first'' ''default'' any_goal)
           None None of
      Returned (r, stats) s \<Rightarrow>
        r = Some start_state \<and> states_expanded stats = 1 \<and> length (expanded s) = 0 \<and>
        states_generated stats = 1
    | _ \<Rightarrow> False)"
  by (simp add: run_defs eval_nat_numeral)

end
